theory Spec2Isabelle
  imports Main "HOL-Library.Sublist"
begin

section \<open>Parsed documents\<close>

text \<open>
  The converter of \<^verbatim>\<open>json-to-sqlite.py\<close> works on the values that Python's
  \<^verbatim>\<open>json\<close> module returns: \<^verbatim>\<open>None\<close>, \<^verbatim>\<open>bool\<close>, \<^verbatim>\<open>int\<close> (unbounded),
  \<^verbatim>\<open>float\<close>, \<^verbatim>\<open>str\<close>, \<^verbatim>\<open>dict\<close> and \<^verbatim>\<open>list\<close>. A \<^verbatim>\<open>dict\<close> keeps its
  insertion order, so an object is an association list. The payload of a float is never
  inspected by the converter; it is kept as a mantissa and an exponent.
  A \<^typ>\<open>char\<close> stands for one code point below 256.
\<close>

datatype json =
    JNull
  | JBool bool
  | JInt int
  | JFloat int int
  | JStr string
  | JObj "(string \<times> json) list"
  | JArr "json list"

text \<open>
  The \<^verbatim>\<open>isinstance\<close> tests of the source. In Python \<^verbatim>\<open>bool\<close> is a subclass of
  \<^verbatim>\<open>int\<close>, so \<^verbatim>\<open>isinstance(True, int)\<close> holds.
\<close>

fun is_bool :: "json \<Rightarrow> bool" where
  "is_bool (JBool _) = True"
| "is_bool _ = False"

fun is_int :: "json \<Rightarrow> bool" where
  "is_int (JBool _) = True"
| "is_int (JInt _) = True"
| "is_int _ = False"

fun is_float :: "json \<Rightarrow> bool" where
  "is_float (JFloat _ _) = True"
| "is_float _ = False"

fun is_dict :: "json \<Rightarrow> bool" where
  "is_dict (JObj _) = True"
| "is_dict _ = False"

fun is_list :: "json \<Rightarrow> bool" where
  "is_list (JArr _) = True"
| "is_list _ = False"

text \<open>\<^verbatim>\<open>d[k] = v\<close> on an insertion-ordered dict: an existing key keeps its place.\<close>

fun dict_set :: "'k \<Rightarrow> 'v \<Rightarrow> ('k \<times> 'v) list \<Rightarrow> ('k \<times> 'v) list" where
  "dict_set k v [] = [(k, v)]"
| "dict_set k v ((k', v') # d) = (if k' = k then (k, v) # d else (k', v') # dict_set k v d)"

section \<open>Identifier sanitizer\<close>

text \<open>\<^verbatim>\<open>str.isalnum\<close> and \<^verbatim>\<open>str.lower\<close> of Python 3, on the code points below 256.\<close>

definition isalnum :: "char \<Rightarrow> bool" where
  "isalnum c = (let n = (of_char c :: nat) in
     (48 \<le> n \<and> n \<le> 57) \<or> (65 \<le> n \<and> n \<le> 90) \<or> (97 \<le> n \<and> n \<le> 122) \<or>
     n = 170 \<or> n = 178 \<or> n = 179 \<or> n = 181 \<or> n = 185 \<or> n = 186 \<or>
     n = 188 \<or> n = 189 \<or> n = 190 \<or>
     (192 \<le> n \<and> n \<le> 214) \<or> (216 \<le> n \<and> n \<le> 246) \<or> 248 \<le> n)"

definition lower_char :: "char \<Rightarrow> char" where
  "lower_char c = (let n = (of_char c :: nat) in
     if (65 \<le> n \<and> n \<le> 90) \<or> (192 \<le> n \<and> n \<le> 214) \<or> (216 \<le> n \<and> n \<le> 222)
     then char_of (n + 32) else c)"

definition lower :: "string \<Rightarrow> string" where
  "lower s = map lower_char s"

definition reserved_keywords :: "string set" where
  "reserved_keywords = {
     ''abort'', ''action'', ''add'', ''after'', ''all'', ''alter'', ''analyze'', ''and'', ''as'', ''asc'',
     ''attach'', ''autoincrement'', ''before'', ''begin'', ''between'', ''by'', ''cascade'', ''case'',
     ''cast'', ''check'', ''collate'', ''column'', ''commit'', ''conflict'', ''constraint'', ''create'',
     ''cross'', ''current'', ''current_date'', ''current_time'', ''current_timestamp'', ''database'',
     ''default'', ''deferrable'', ''deferred'', ''delete'', ''desc'', ''detach'', ''distinct'', ''drop'',
     ''each'', ''else'', ''end'', ''escape'', ''except'', ''exclusive'', ''exists'', ''explain'', ''fail'',
     ''for'', ''foreign'', ''from'', ''full'', ''glob'', ''group'', ''having'', ''if'', ''ignore'',
     ''immediate'', ''in'', ''index'', ''indexed'', ''initially'', ''inner'', ''insert'', ''instead'',
     ''intersect'', ''into'', ''is'', ''isnull'', ''join'', ''key'', ''left'', ''like'', ''limit'', ''match'',
     ''natural'', ''no'', ''not'', ''notnull'', ''null'', ''of'', ''offset'', ''on'', ''or'', ''order'',
     ''outer'', ''plan'', ''pragma'', ''primary'', ''query'', ''raise'', ''recursive'', ''references'',
     ''regexp'', ''reindex'', ''release'', ''rename'', ''replace'', ''restrict'', ''right'', ''rollback'',
     ''row'', ''savepoint'', ''select'', ''set'', ''table'', ''temp'', ''temporary'', ''then'', ''to'',
     ''transaction'', ''trigger'', ''type'', ''union'', ''unique'', ''update'', ''using'', ''vacuum'',
     ''values'', ''view'', ''virtual'', ''when'', ''where'', ''with'', ''without''}"

definition sanitize_char :: "char \<Rightarrow> char" where
  "sanitize_char c = (if isalnum c then c else CHR ''_'')"

definition sanitize_name :: "string \<Rightarrow> string" where
  "sanitize_name name =
     (let sanitized = map sanitize_char name
      in if lower sanitized \<in> reserved_keywords then CHR ''_'' # sanitized else sanitized)"

section \<open>Value type classifier\<close>

datatype sqlite_type = BOOLEAN | INTEGER | REAL | REFERENCE | TEXT

definition get_sqlite_type :: "json \<Rightarrow> sqlite_type" where
  "get_sqlite_type v =
     (if is_bool v then BOOLEAN
      else if is_int v then INTEGER
      else if is_float v then REAL
      else if is_dict v \<or> is_list v then REFERENCE
      else TEXT)"

text \<open>The string the converter splices into its statements for a type.\<close>

fun type_name :: "sqlite_type \<Rightarrow> string" where
  "type_name BOOLEAN = ''BOOLEAN''"
| "type_name INTEGER = ''INTEGER''"
| "type_name REAL = ''REAL''"
| "type_name REFERENCE = ''REFERENCE''"
| "type_name TEXT = ''TEXT''"

section \<open>Storage engine\<close>

text \<open>
  SQLite is not part of the repository. It is modelled by the three statements the
  converter issues, as SQLite 3.46 answers them. The converter splices table and column
  names into the statement text without quoting, so a name reaches the engine as a bare
  token.

  \<^item> A bare token is an identifier when it is not empty, consists of ASCII letters and
    digits, \<^verbatim>\<open>_\<close>, \<^verbatim>\<open>$\<close> and code points from 128 on, does not start with a digit or
    \<^verbatim>\<open>$\<close>, and is not, up to the case of ASCII letters, one of the words the grammar
    reserves. A statement with any other token in the place of a name is a syntax error.
  \<^item> Table and column names are compared up to the case of ASCII letters.
  \<^item> A table holds at most 2000 columns.
  \<^item> The row identifier is the \<^verbatim>\<open>INTEGER PRIMARY KEY AUTOINCREMENT\<close> column. A row
    may set it, under the column's name or under \<^verbatim>\<open>rowid\<close>, \<^verbatim>\<open>oid\<close>, \<^verbatim>\<open>_rowid_\<close>
    where no column has that name; otherwise it is one more than the largest identifier the
    table ever held.

  A table is a list of declared columns, the rows in insertion order, each with its
  identifier and the columns and values its \<^verbatim>\<open>INSERT\<close> bound, and the largest
  identifier ever held. Not modelled: the conversion of a text or a float written to the
  row identifier (the model answers \<open>NotModelled\<close>), SQLite's internal tables (names
  starting with \<^verbatim>\<open>sqlite_\<close>), limits on the length of a statement, and transactions
  (\<^verbatim>\<open>commit\<close> changes nothing a later statement sees, and the source never rolls back).
\<close>

definition fold_char :: "char \<Rightarrow> char" where
  "fold_char c = (let n = (of_char c :: nat) in
     if 65 \<le> n \<and> n \<le> 90 then char_of (n + 32) else c)"

definition fold_case :: "string \<Rightarrow> string" where
  "fold_case s = map fold_char s"

definition ascii_digit :: "char \<Rightarrow> bool" where
  "ascii_digit c = (let n = (of_char c :: nat) in 48 \<le> n \<and> n \<le> 57)"

definition ident_char :: "char \<Rightarrow> bool" where
  "ident_char c = (let n = (of_char c :: nat) in
     (48 \<le> n \<and> n \<le> 57) \<or> (65 \<le> n \<and> n \<le> 90) \<or> (97 \<le> n \<and> n \<le> 122) \<or>
     n = 95 \<or> n = 36 \<or> 128 \<le> n)"

text \<open>The words SQLite 3.46 refuses as a bare table or column name.\<close>

definition engine_reserved :: "string set" where
  "engine_reserved = {
     ''add'', ''all'', ''alter'', ''and'', ''as'', ''autoincrement'', ''between'', ''case'',
     ''check'', ''collate'', ''commit'', ''constraint'', ''create'', ''default'', ''deferrable'',
     ''delete'', ''distinct'', ''drop'', ''else'', ''escape'', ''except'', ''exists'', ''foreign'',
     ''from'', ''group'', ''having'', ''in'', ''index'', ''insert'', ''intersect'', ''into'',
     ''is'', ''isnull'', ''join'', ''limit'', ''not'', ''nothing'', ''notnull'', ''null'', ''on'',
     ''or'', ''order'', ''primary'', ''references'', ''returning'', ''select'', ''set'', ''table'',
     ''then'', ''to'', ''transaction'', ''union'', ''unique'', ''update'', ''using'', ''values'',
     ''when'', ''where''}"

definition valid_identifier :: "string \<Rightarrow> bool" where
  "valid_identifier w =
     (w \<noteq> [] \<and> list_all ident_char w \<and> \<not> ascii_digit (hd w) \<and> hd w \<noteq> CHR ''$''
      \<and> fold_case w \<notin> engine_reserved)"

definition internal_name :: "string \<Rightarrow> bool" where
  "internal_name w = prefix ''sqlite_'' (fold_case w)"

datatype decl = PrimaryKey | Declared sqlite_type | Untyped

type_synonym row = "(string \<times> json) list"

record table =
  cols :: "(string \<times> decl) list"
  rows :: "(int \<times> row) list"
  seq :: int

text \<open>A database maps the case-folded name of a table to the table.\<close>

type_synonym database = "string \<rightharpoonup> table"

definition find_table :: "database \<Rightarrow> string \<Rightarrow> table option" where
  "find_table d name = d (fold_case name)"

definition has_column :: "table \<Rightarrow> string \<Rightarrow> bool" where
  "has_column tb c = (fold_case c \<in> set (map (fold_case \<circ> fst) (cols tb)))"

datatype op_error =
    SyntaxError string
  | ReservedName string
  | NoSuchTable string
  | NoSuchColumn string string
  | TooManyColumns string
  | DuplicateColumnName string
  | DatabaseFull

datatype error =
    AttributeError
  | KeyError string
  | OperationalError op_error
  | IntegrityError
  | OverflowError
  | ValueError
  | JSONDecodeError
  | FileNotFoundError
  | NotModelled

text \<open>
  \<^verbatim>\<open>CREATE TABLE IF NOT EXISTS name (columns)\<close>. The statement is parsed as a whole
  first; \<^verbatim>\<open>if\<close> cannot follow \<^verbatim>\<open>IF NOT EXISTS\<close>. An existing table of that name is
  left as it is, whatever its columns; a new table cannot have two columns of one name.
\<close>

fun first_duplicate :: "string list \<Rightarrow> string list \<Rightarrow> string option" where
  "first_duplicate seen [] = None"
| "first_duplicate seen (c # cs) =
     (if fold_case c \<in> set seen then Some c else first_duplicate (fold_case c # seen) cs)"

definition exec_create_table ::
    "database \<Rightarrow> string \<Rightarrow> (string \<times> decl) list \<Rightarrow> error + database" where
  "exec_create_table d name columns =
     (if fold_case name = ''if'' \<or> \<not> valid_identifier name
      then Inl (OperationalError (SyntaxError name))
      else case filter (\<lambda>c. \<not> valid_identifier c) (map fst columns) of
        c # _ \<Rightarrow> Inl (OperationalError (SyntaxError c))
      | [] \<Rightarrow>
          if internal_name name then Inl (OperationalError (ReservedName name))
          else case find_table d name of
            Some _ \<Rightarrow> Inr d
          | None \<Rightarrow>
              (case first_duplicate [] (map fst columns) of
                 Some c \<Rightarrow> Inl (OperationalError (DuplicateColumnName c))
               | None \<Rightarrow> Inr (d(fold_case name \<mapsto> \<lparr>cols = columns, rows = [], seq = 0\<rparr>))))"

text \<open>
  \<^verbatim>\<open>ALTER TABLE name ADD COLUMN column ty\<close>. SQLite looks the table up as soon as it has
  read its name, then reads the column, then checks the number of columns, and only then
  looks for a column of the same name. With an empty column name the statement reads
  \<^verbatim>\<open>ADD COLUMN ty\<close> and adds a column that is named like the type and has no type.
\<close>

definition exec_add_column ::
    "database \<Rightarrow> string \<Rightarrow> string \<Rightarrow> sqlite_type \<Rightarrow> error + database" where
  "exec_add_column d name column ty =
     (if \<not> valid_identifier name then Inl (OperationalError (SyntaxError name))
      else if internal_name name then Inl NotModelled
      else case find_table d name of
        None \<Rightarrow> Inl (OperationalError (NoSuchTable name))
      | Some tb \<Rightarrow>
          if column \<noteq> [] \<and> \<not> valid_identifier column
          then Inl (OperationalError (SyntaxError column))
          else if 2000 \<le> length (cols tb) then Inl (OperationalError (TooManyColumns name))
          else
            (let new_column = (if column = [] then (type_name ty, Untyped)
                               else (column, Declared ty))
             in if has_column tb (fst new_column)
                then Inl (OperationalError (DuplicateColumnName (fst new_column)))
                else Inr (d(fold_case name \<mapsto> tb\<lparr>cols := cols tb @ [new_column]\<rparr>))))"

text \<open>
  \<^verbatim>\<open>INSERT INTO name (columns) VALUES (?, ...)\<close> with the values bound as parameters, and
  \<^verbatim>\<open>INSERT INTO name DEFAULT VALUES\<close> for the empty row. The statement is prepared first
  (syntax, table, columns); binding a Python integer outside 64 bits raises
  \<^verbatim>\<open>OverflowError\<close>; then the row identifier is chosen. When several columns of the
  statement name the row identifier, the last one counts. The result carries
  \<^verbatim>\<open>lastrowid\<close>.
\<close>

fun int_overflow :: "json \<Rightarrow> bool" where
  "int_overflow (JInt n) = (n < - (2 ^ 63) \<or> 2 ^ 63 \<le> n)"
| "int_overflow _ = False"

definition rowid_alias :: "string \<Rightarrow> bool" where
  "rowid_alias c = (fold_case c \<in> {''rowid'', ''oid'', ''_rowid_''})"

definition resolves :: "table \<Rightarrow> string \<Rightarrow> bool" where
  "resolves tb c = (has_column tb c \<or> rowid_alias c)"

definition names_row_id :: "table \<Rightarrow> string \<Rightarrow> bool" where
  "names_row_id tb c =
     (case find (\<lambda>col. fold_case (fst col) = fold_case c) (cols tb) of
        Some col \<Rightarrow> snd col = PrimaryKey
      | None \<Rightarrow> rowid_alias c)"

datatype row_id_request = Generated | Given int | Unconverted

fun requested :: "json \<Rightarrow> row_id_request" where
  "requested JNull = Generated"
| "requested (JBool b) = Given (if b then 1 else 0)"
| "requested (JInt n) = Given n"
| "requested _ = Unconverted"

definition row_id_request :: "table \<Rightarrow> row \<Rightarrow> row_id_request" where
  "row_id_request tb r =
     (case filter (\<lambda>cv. names_row_id tb (fst cv)) r of
        [] \<Rightarrow> Generated
      | cv # cvs \<Rightarrow> requested (snd (last (cv # cvs))))"

definition exec_insert :: "database \<Rightarrow> string \<Rightarrow> row \<Rightarrow> error + (database \<times> int)" where
  "exec_insert d name r =
     (if \<not> valid_identifier name then Inl (OperationalError (SyntaxError name))
      else case filter (\<lambda>c. \<not> valid_identifier c) (map fst r) of
        c # _ \<Rightarrow> Inl (OperationalError (SyntaxError c))
      | [] \<Rightarrow>
          if internal_name name then Inl NotModelled
          else case find_table d name of
            None \<Rightarrow> Inl (OperationalError (NoSuchTable name))
          | Some tb \<Rightarrow>
              (case filter (\<lambda>c. \<not> resolves tb c) (map fst r) of
                 c # _ \<Rightarrow> Inl (OperationalError (NoSuchColumn name c))
               | [] \<Rightarrow>
                   if list_ex int_overflow (map snd r) then Inl OverflowError
                   else
                     (case row_id_request tb r of
                        Unconverted \<Rightarrow> Inl NotModelled
                      | Given n \<Rightarrow>
                          if n \<in> set (map fst (rows tb)) then Inl IntegrityError
                          else Inr (d(fold_case name \<mapsto>
                                       tb\<lparr>rows := rows tb @ [(n, r)], seq := max (seq tb) n\<rparr>), n)
                      | Generated \<Rightarrow>
                          if 2 ^ 63 - 1 \<le> seq tb then Inl (OperationalError DatabaseFull)
                          else Inr (d(fold_case name \<mapsto>
                                       tb\<lparr>rows := rows tb @ [(seq tb + 1, r)],
                                          seq := seq tb + 1\<rparr>), seq tb + 1))))"

section \<open>Schema registry\<close>

text \<open>
  The fields of \<^verbatim>\<open>JsonToSqlite\<close>: the registry \<^verbatim>\<open>known_tables\<close>, the sanitized root
  table name, and the database behind the connection. An exception leaves the object as
  it is at the \<^verbatim>\<open>raise\<close>, so every operation returns the state next to its outcome.
\<close>

record converter =
  known_tables :: "string \<rightharpoonup> string set"
  root_table :: string
  conn :: database

definition new_converter :: "database \<Rightarrow> string \<Rightarrow> converter" where
  "new_converter d root = \<lparr>known_tables = Map.empty, root_table = sanitize_name root, conn = d\<rparr>"

fun truthy :: "string option \<Rightarrow> bool" where
  "truthy None = False"
| "truthy (Some s) = (s \<noteq> [])"

fun elems :: "json \<Rightarrow> json list" where
  "elems (JArr xs) = xs"
| "elems _ = []"

text \<open>\<^verbatim>\<open>"duplicate column name" in str(e)\<close> for an \<^verbatim>\<open>sqlite3.OperationalError\<close>.\<close>

fun is_duplicate_column :: "error \<Rightarrow> bool" where
  "is_duplicate_column (OperationalError (DuplicateColumnName _)) = True"
| "is_duplicate_column _ = False"

text \<open>
  The first block of \<^verbatim>\<open>_create_table_if_not_exists\<close>, for a sanitized table name: the
  table is entered into the registry before \<^verbatim>\<open>CREATE TABLE\<close> is executed, and an
  exception of the statement is not caught.
\<close>

definition register_table ::
    "converter \<Rightarrow> string \<Rightarrow> string option \<Rightarrow> (error + unit) \<times> converter" where
  "register_table s table_name parent_table =
     (if table_name \<notin> dom (known_tables s) then
        (case exec_create_table (conn s) table_name
                ((''row__id'', PrimaryKey) #
                 (if truthy parent_table
                  then [(the parent_table @ ''_id'', Declared INTEGER)] else [])) of
           Inl e \<Rightarrow> (Inl e, s\<lparr>known_tables := (known_tables s)(table_name \<mapsto> {})\<rparr>)
         | Inr d \<Rightarrow> (Inr (), s\<lparr>known_tables := (known_tables s)(table_name \<mapsto> {}), conn := d\<rparr>))
      else (Inr (), s))"

text \<open>
  \<^verbatim>\<open>_create_table_if_not_exists\<close>; \<open>create_fields\<close> is its loop over
  \<^verbatim>\<open>data.items()\<close>, which raises \<^verbatim>\<open>AttributeError\<close> when \<^verbatim>\<open>data\<close> is not a dict.
\<close>

function create_table_if_not_exists ::
    "converter \<Rightarrow> string \<Rightarrow> json \<Rightarrow> string option \<Rightarrow> (error + unit) \<times> converter"
  and create_fields ::
    "converter \<Rightarrow> string \<Rightarrow> (string \<times> json) list \<Rightarrow> (error + unit) \<times> converter"
where
  "create_table_if_not_exists s table_name0 data parent_table =
     (let table_name = sanitize_name table_name0 in
      case register_table s table_name parent_table of
        (Inl e, s1) \<Rightarrow> (Inl e, s1)
      | (Inr _, s1) \<Rightarrow>
          (case data of
             JObj items \<Rightarrow> create_fields s1 table_name items
           | _ \<Rightarrow> (Inl AttributeError, s1)))"
| "create_fields s table_name [] = (Inr (), s)"
| "create_fields s table_name ((key, value) # rest) =
     (let column_name = sanitize_name key in
      case known_tables s table_name of
        None \<Rightarrow> (Inl (KeyError table_name), s)
      | Some known \<Rightarrow>
          if column_name \<notin> known then
            (let sqlite_type = get_sqlite_type value in
             if sqlite_type = REFERENCE then
               (if is_dict value then
                  (case create_table_if_not_exists s (table_name @ ''__'' @ column_name)
                          value (Some table_name) of
                     (Inl e, s') \<Rightarrow> (Inl e, s')
                   | (Inr _, s') \<Rightarrow> create_fields s' table_name rest)
                else if is_list value \<and> elems value \<noteq> [] \<and> is_dict (hd (elems value)) then
                  (case create_table_if_not_exists s (table_name @ ''__'' @ column_name)
                          (hd (elems value)) (Some table_name) of
                     (Inl e, s') \<Rightarrow> (Inl e, s')
                   | (Inr _, s') \<Rightarrow> create_fields s' table_name rest)
                else create_fields s table_name rest)
             else
               (case exec_add_column (conn s) table_name column_name sqlite_type of
                  Inr d \<Rightarrow>
                    create_fields
                      (s\<lparr>conn := d,
                         known_tables := (known_tables s)(table_name \<mapsto> insert column_name known)\<rparr>)
                      table_name rest
                | Inl e \<Rightarrow>
                    if is_duplicate_column e then create_fields s table_name rest
                    else (Inl e, s)))
          else create_fields s table_name rest)"
  by pat_completeness auto
termination
proof -
  have hd_smaller: "size (hd (elems v)) < size v" if "is_list v" "elems v \<noteq> []" for v
    using that by (cases v; cases "elems v") auto
  show ?thesis
    by (relation "measure (\<lambda>x. case x of
            Inl (s, t, d, p) \<Rightarrow> 2 * size d
          | Inr (s, t, items) \<Rightarrow> 2 * size_list (size_prod (\<lambda>_. 0) size) items + 1)")
       (auto dest: hd_smaller)
qed

section \<open>Record writer\<close>

text \<open>
  \<^verbatim>\<open>'__'.join(table_name.split('__')[:-1])\<close>: \<^verbatim>\<open>str.split\<close> scans from the left
  for non-overlapping occurrences of the separator.
\<close>

fun split_dunder :: "string \<Rightarrow> string list" where
  "split_dunder [] = [[]]"
| "split_dunder [c] = [[c]]"
| "split_dunder (c # d # cs) =
     (if c = CHR ''_'' \<and> d = CHR ''_'' then [] # split_dunder cs
      else (case split_dunder (d # cs) of
              [] \<Rightarrow> [[c]]
            | p # ps \<Rightarrow> (c # p) # ps))"

fun join_dunder :: "string list \<Rightarrow> string" where
  "join_dunder [] = []"
| "join_dunder [p] = p"
| "join_dunder (p # q # ps) = p @ ''__'' @ join_dunder (q # ps)"

definition parent_table_of :: "string \<Rightarrow> string" where
  "parent_table_of table_name = join_dunder (butlast (split_dunder table_name))"

text \<open>The first loop of \<^verbatim>\<open>_insert_data\<close>: scalar fields and composite fields.\<close>

fun split_fields :: "(string \<times> json) list \<Rightarrow> row \<Rightarrow> row \<Rightarrow> row \<times> row" where
  "split_fields [] simple_data nested_data = (simple_data, nested_data)"
| "split_fields ((key, value) # rest) simple_data nested_data =
     (let column_name = sanitize_name key in
      if is_dict value \<or> is_list value
      then split_fields rest simple_data (dict_set column_name value nested_data)
      else split_fields rest (dict_set column_name value simple_data) nested_data)"

primrec max_size :: "json list \<Rightarrow> nat" where
  "max_size [] = 0"
| "max_size (v # vs) = max (size v) (max_size vs)"

text \<open>
  \<^verbatim>\<open>_insert_data\<close>; \<open>insert_nested\<close> is its loop over \<^verbatim>\<open>nested_data.items()\<close> and
  \<open>insert_items\<close> the inner loop over the elements of an array. The handler of
  \<^verbatim>\<open>_insert_data\<close> logs and raises the same exception again.
\<close>

function insert_data ::
    "converter \<Rightarrow> string \<Rightarrow> json \<Rightarrow> int option \<Rightarrow> (error + int) \<times> converter"
  and insert_nested ::
    "converter \<Rightarrow> string \<Rightarrow> row \<Rightarrow> int \<Rightarrow> (error + unit) \<times> converter"
  and insert_items ::
    "converter \<Rightarrow> string \<Rightarrow> json list \<Rightarrow> int \<Rightarrow> (error + unit) \<times> converter"
where
  "insert_data s table_name0 data parent_id =
     (let table_name = sanitize_name table_name0 in
      case data of
        JObj items \<Rightarrow>
          (let simple_data = fst (split_fields items [] []);
               nested_data = snd (split_fields items [] [])
           in case (if simple_data \<noteq> [] then
                      (case parent_id of
                         Some pid \<Rightarrow>
                           exec_insert (conn s) table_name
                             (simple_data @ [(parent_table_of table_name @ ''_id'', JInt pid)])
                       | None \<Rightarrow> exec_insert (conn s) table_name simple_data)
                    else
                      (case parent_id of
                         Some pid \<Rightarrow>
                           exec_insert (conn s) table_name
                             [(parent_table_of table_name @ ''_id'', JInt pid)]
                       | None \<Rightarrow> exec_insert (conn s) table_name []))
              of
                Inl e \<Rightarrow> (Inl e, s)
              | Inr (d, row__id) \<Rightarrow>
                  (case insert_nested (s\<lparr>conn := d\<rparr>) table_name nested_data row__id of
                     (Inl e, s') \<Rightarrow> (Inl e, s')
                   | (Inr _, s') \<Rightarrow> (Inr row__id, s')))
      | _ \<Rightarrow> (Inl AttributeError, s))"
| "insert_nested s table_name [] row__id = (Inr (), s)"
| "insert_nested s table_name ((key, value) # rest) row__id =
     (let nested_table = table_name @ ''__'' @ key in
      if is_dict value then
        (case insert_data s nested_table value (Some row__id) of
           (Inl e, s') \<Rightarrow> (Inl e, s')
         | (Inr _, s') \<Rightarrow> insert_nested s' table_name rest row__id)
      else if is_list value \<and> elems value \<noteq> [] \<and> is_dict (hd (elems value)) then
        (case insert_items s nested_table (elems value) row__id of
           (Inl e, s') \<Rightarrow> (Inl e, s')
         | (Inr _, s') \<Rightarrow> insert_nested s' table_name rest row__id)
      else insert_nested s table_name rest row__id)"
| "insert_items s nested_table [] row__id = (Inr (), s)"
| "insert_items s nested_table (item # rest) row__id =
     (case insert_data s nested_table item (Some row__id) of
        (Inl e, s') \<Rightarrow> (Inl e, s')
      | (Inr _, s') \<Rightarrow> insert_items s' nested_table rest row__id)"
  by pat_completeness auto
termination
proof -
  have dict_set_values: "b = v \<or> (a, b) \<in> set d"
    if "(a, b) \<in> set (dict_set k v d)" for a b k and v :: json and d
    using that by (induction d) (auto split: if_splits)
  have split_values: "b \<in> snd ` set items \<or> (a, b) \<in> set nd"
    if "(a, b) \<in> set (snd (split_fields items sd nd))" for a b items sd nd
    using that
  proof (induction items arbitrary: sd nd)
    case Nil
    then show ?case by simp
  next
    case (Cons x items)
    obtain k v where x: "x = (k, v)" by (cases x)
    show ?case
    proof (cases "is_dict v \<or> is_list v")
      case True
      with Cons.prems x
      have "(a, b) \<in> set (snd (split_fields items sd (dict_set (sanitize_name k) v nd)))"
        by (simp add: Let_def)
      from Cons.IH[OF this] show ?thesis
        using dict_set_values[of a b "sanitize_name k" v nd] x by force
    next
      case False
      with Cons.prems x
      have "(a, b) \<in> set (snd (split_fields items (dict_set (sanitize_name k) v sd) nd))"
        by (simp add: Let_def)
      from Cons.IH[OF this] show ?thesis using x by force
    qed
  qed
  have max_size_less: "max_size vs < n" if "0 < n" "\<And>v. v \<in> set vs \<Longrightarrow> size v < n" for vs n
    using that by (induction vs) auto
  have field_size: "size v < size (JObj items)" if "(k, v) \<in> set items" for k v items
    using that by (induction items) auto
  have elem_size: "size x < size (JArr xs)" if "x \<in> set xs" for x xs
    using that by (induction xs) auto
  have nested_smaller [simp]:
    "2 * max_size (map snd (snd (split_fields items [] [])))
       < Suc (2 * size_list (size_prod (\<lambda>x. 0) size) items)" for items
  proof -
    have "max_size (map snd (snd (split_fields items [] []))) < size (JObj items)"
    proof (rule max_size_less)
      fix v assume "v \<in> set (map snd (snd (split_fields items [] [])))"
      then obtain a where "(a, v) \<in> set (snd (split_fields items [] []))" by auto
      from split_values[OF this] obtain k where "(k, v) \<in> set items" by auto
      then show "size v < size (JObj items)" by (rule field_size)
    qed simp
    then show ?thesis by simp
  qed
  have elems_smaller: "max_size (elems v) < size v" if "is_list v" for v
  proof -
    from that obtain xs where v: "v = JArr xs" by (cases v) auto
    have "max_size xs < size (JArr xs)"
      by (rule max_size_less) (simp, rule elem_size)
    with v show ?thesis by simp
  qed
  show ?thesis
    by (relation "measures [
          (\<lambda>x. case x of
            Inl (s, t, d, p) \<Rightarrow> 2 * size d
          | Inr (Inl (s, t, nd, r)) \<Rightarrow> 2 * max_size (map snd nd) + 1
          | Inr (Inr (s, t, xs, r)) \<Rightarrow> 2 * max_size xs + 1),
          (\<lambda>x. case x of
            Inl (s, t, d, p) \<Rightarrow> 0
          | Inr (Inl (s, t, nd, r)) \<Rightarrow> length nd
          | Inr (Inr (s, t, xs, r)) \<Rightarrow> length xs)]")
       (auto simp: max_def dest: elems_smaller)
qed

section \<open>Ingestion\<close>

text \<open>
  The JSON parser is not part of the repository: \<open>loads\<close> stands for \<^verbatim>\<open>json.loads\<close>
  (and \<^verbatim>\<open>json.load\<close> on a whole file), \<open>None\<close> for \<^verbatim>\<open>JSONDecodeError\<close>. A file is
  its text, or \<open>None\<close> when it does not exist. What the loops hand to \<^verbatim>\<open>logger.error\<close>
  is returned as a list of record numbers with the exception caught.
\<close>

type_synonym log = "(nat \<times> error) list"

text \<open>The two loops of \<^verbatim>\<open>_process_json_file\<close>.\<close>

fun json_schema_pass :: "converter \<Rightarrow> json list \<Rightarrow> (error + unit) \<times> converter" where
  "json_schema_pass s [] = (Inr (), s)"
| "json_schema_pass s (item # rest) =
     (case create_table_if_not_exists s (root_table s) item None of
        (Inl e, s') \<Rightarrow> (Inl e, s')
      | (Inr _, s') \<Rightarrow> json_schema_pass s' rest)"

fun json_write_pass :: "converter \<Rightarrow> nat \<Rightarrow> json list \<Rightarrow> log \<times> converter" where
  "json_write_pass s item_num [] = ([], s)"
| "json_write_pass s item_num (item # rest) =
     (case insert_data s (root_table s) item None of
        (Inl e, s') \<Rightarrow>
          (case json_write_pass s' (Suc item_num) rest of
             (lg, s'') \<Rightarrow> ((item_num, e) # lg, s''))
      | (Inr _, s') \<Rightarrow> json_write_pass s' (Suc item_num) rest)"

definition process_json_file ::
    "(string \<Rightarrow> json option) \<Rightarrow> converter \<Rightarrow> string \<Rightarrow> (error + log) \<times> converter" where
  "process_json_file loads s content =
     (case loads content of
        None \<Rightarrow> (Inl JSONDecodeError, s)
      | Some data \<Rightarrow>
          if \<not> is_list data then (Inl ValueError, s)
          else
            (case json_schema_pass s (elems data) of
               (Inl e, s') \<Rightarrow> (Inl e, s')
             | (Inr _, s') \<Rightarrow>
                 (case json_write_pass s' 1 (elems data) of
                    (lg, s'') \<Rightarrow> (Inr lg, s''))))"

text \<open>Iterating over a text file yields its lines with their terminators.\<close>

fun file_lines :: "string \<Rightarrow> string list" where
  "file_lines [] = []"
| "file_lines (c # cs) =
     (if c = CHR 0x0A then [c] # file_lines cs
      else (case file_lines cs of
              [] \<Rightarrow> [[c]]
            | l # ls \<Rightarrow> (c # l) # ls))"

text \<open>The two loops of \<^verbatim>\<open>_process_jsonlines_file\<close>.\<close>

fun lines_schema_pass ::
    "(string \<Rightarrow> json option) \<Rightarrow> converter \<Rightarrow> nat \<Rightarrow> string list \<Rightarrow> log \<times> converter" where
  "lines_schema_pass loads s line_num [] = ([], s)"
| "lines_schema_pass loads s line_num (line # rest) =
     (case loads line of
        None \<Rightarrow>
          (case lines_schema_pass loads s (Suc line_num) rest of
             (lg, s'') \<Rightarrow> ((line_num, JSONDecodeError) # lg, s''))
      | Some data \<Rightarrow>
          (case create_table_if_not_exists s (root_table s) data None of
             (Inl e, s') \<Rightarrow>
               (case lines_schema_pass loads s' (Suc line_num) rest of
                  (lg, s'') \<Rightarrow> ((line_num, e) # lg, s''))
           | (Inr _, s') \<Rightarrow> lines_schema_pass loads s' (Suc line_num) rest))"

fun lines_write_pass ::
    "(string \<Rightarrow> json option) \<Rightarrow> converter \<Rightarrow> nat \<Rightarrow> string list \<Rightarrow> log \<times> converter" where
  "lines_write_pass loads s line_num [] = ([], s)"
| "lines_write_pass loads s line_num (line # rest) =
     (case loads line of
        None \<Rightarrow>
          (case lines_write_pass loads s (Suc line_num) rest of
             (lg, s'') \<Rightarrow> ((line_num, JSONDecodeError) # lg, s''))
      | Some data \<Rightarrow>
          (case insert_data s (root_table s) data None of
             (Inl e, s') \<Rightarrow>
               (case lines_write_pass loads s' (Suc line_num) rest of
                  (lg, s'') \<Rightarrow> ((line_num, e) # lg, s''))
           | (Inr _, s') \<Rightarrow> lines_write_pass loads s' (Suc line_num) rest))"

definition process_jsonlines_file ::
    "(string \<Rightarrow> json option) \<Rightarrow> converter \<Rightarrow> string \<Rightarrow> log \<times> converter" where
  "process_jsonlines_file loads s content =
     (case lines_schema_pass loads s 1 (file_lines content) of
        (lg1, s1) \<Rightarrow>
          (case lines_write_pass loads s1 1 (file_lines content) of
             (lg2, s2) \<Rightarrow> (lg1 @ lg2, s2)))"

text \<open>\<^verbatim>\<open>process_file\<close>: \<^verbatim>\<open>first_char = f.read(1)\<close> is the first character of the text.\<close>

definition first_char :: "string \<Rightarrow> string" where
  "first_char content = take 1 content"

definition process_file ::
    "(string \<Rightarrow> json option) \<Rightarrow> converter \<Rightarrow> string option \<Rightarrow> (error + log) \<times> converter" where
  "process_file loads s file =
     (case file of
        None \<Rightarrow> (Inl FileNotFoundError, s)
      | Some content \<Rightarrow>
          if first_char content = ''[''
          then process_json_file loads s content
          else (case process_jsonlines_file loads s content of
                  (lg, s') \<Rightarrow> (Inr lg, s')))"

section \<open>Notions used to state the properties\<close>

text \<open>
  Input-shape detection as section 4.4 of the specification words it: the first character
  that is not white space (the white space of the JSON grammar).
\<close>

definition is_space :: "char \<Rightarrow> bool" where
  "is_space c = (c = CHR '' '' \<or> c = CHR 0x09 \<or> c = CHR 0x0A \<or> c = CHR 0x0D)"

definition first_non_whitespace :: "string \<Rightarrow> string" where
  "first_non_whitespace content = take 1 (dropWhile is_space content)"

text \<open>
  The sanitizer as section 4.1 of the specification words it, written independently of the
  code: every character that is not alphanumeric is replaced, one position at a time, and
  the result is prefixed when, up to letter case, it is a reserved word of the storage
  engine.
\<close>

primrec replace_non_alnum :: "string \<Rightarrow> string" where
  "replace_non_alnum [] = []"
| "replace_non_alnum (c # cs) =
     (if isalnum c then c # replace_non_alnum cs else CHR ''_'' # replace_non_alnum cs)"

definition collides_with_reserved :: "string \<Rightarrow> bool" where
  "collides_with_reserved s = (fold_case s \<in> engine_reserved)"

definition sanitize_spec :: "string \<Rightarrow> string" where
  "sanitize_spec name =
     (if collides_with_reserved (replace_non_alnum name)
      then ''_'' @ replace_non_alnum name else replace_non_alnum name)"

text \<open>Two adjacent underscores somewhere in an identifier.\<close>

fun has_dunder :: "string \<Rightarrow> bool" where
  "has_dunder (c # d # cs) = (c = CHR ''_'' \<and> d = CHR ''_'' \<or> has_dunder (d # cs))"
| "has_dunder _ = False"

text \<open>A name the sanitizer's replacement of characters leaves as it is.\<close>

definition clean :: "string \<Rightarrow> bool" where
  "clean name = (map sanitize_char name = name)"

text \<open>
  \<open>below T u\<close>: the table stored under the folded name \<open>u\<close> is the table \<open>T\<close> or one
  whose path continues the path of \<open>T\<close>. \<open>path_below T n\<close> is the same for the names of
  the registry, which are compared exactly.
\<close>

definition below :: "string \<Rightarrow> string \<Rightarrow> bool" where
  "below T u = (u = fold_case T \<or> prefix (fold_case T @ ''__'') u)"

definition path_below :: "string \<Rightarrow> string \<Rightarrow> bool" where
  "path_below T n = (n = T \<or> prefix (T @ ''__'') n)"

text \<open>
  \<open>confined T s s'\<close>: between \<open>s\<close> and \<open>s'\<close> nothing changed outside the table \<open>T\<close>
  and the tables below it, in the database and in the registry.
\<close>

definition confined :: "string \<Rightarrow> converter \<Rightarrow> converter \<Rightarrow> bool" where
  "confined T s s' =
     (root_table s' = root_table s
      \<and> (\<forall>u. \<not> below T u \<longrightarrow> conn s' u = conn s u)
      \<and> (\<forall>n. \<not> path_below T n \<longrightarrow> known_tables s' n = known_tables s n))"

text \<open>Every table of the registry exists in the database.\<close>

definition registry_consistent :: "converter \<Rightarrow> bool" where
  "registry_consistent s = (\<forall>t \<in> dom (known_tables s). find_table (conn s) t \<noteq> None)"

text \<open>No table has reached the engine's limit on the number of columns.\<close>

definition roomy :: "converter \<Rightarrow> bool" where
  "roomy s = (\<forall>u tb. conn s u = Some tb \<longrightarrow> length (cols tb) < 2000)"

text \<open>
  The outcome of a schema operation that found nothing to do in state \<open>s\<close>: the state is
  as before, and unless some table is at the column limit the operation did not raise.
\<close>

definition settled :: "converter \<Rightarrow> (error + unit) \<times> converter \<Rightarrow> bool" where
  "settled s outcome = (snd outcome = s \<and> (roomy s \<longrightarrow> fst outcome = Inr ()))"

text \<open>
  The order in which schema operations move the state: registered tables and columns
  stay, tables stay, their declared columns are only extended at the end, their rows are
  untouched, and a table that appears is empty.
\<close>

definition schema_le :: "converter \<Rightarrow> converter \<Rightarrow> bool" where
  "schema_le s s' =
     (root_table s' = root_table s
      \<and> (\<forall>t known. known_tables s t = Some known \<longrightarrow>
            (\<exists>known'. known_tables s' t = Some known' \<and> known \<subseteq> known'))
      \<and> (\<forall>t tb. conn s t = Some tb \<longrightarrow>
            (\<exists>tb'. conn s' t = Some tb' \<and> prefix (cols tb) (cols tb')
                  \<and> rows tb' = rows tb \<and> seq tb' = seq tb))
      \<and> (\<forall>t tb'. conn s t = None \<longrightarrow> conn s' t = Some tb' \<longrightarrow> rows tb' = [] \<and> seq tb' = 0))"

text \<open>
  The order in which the writer moves the state: the registry and the columns of every
  table stay as they are, no table appears, and rows are only added at the end.
\<close>

definition write_le :: "converter \<Rightarrow> converter \<Rightarrow> bool" where
  "write_le s s' =
     (root_table s' = root_table s \<and> known_tables s' = known_tables s
      \<and> (\<forall>t tb. conn s t = Some tb \<longrightarrow>
            (\<exists>tb'. conn s' t = Some tb' \<and> cols tb' = cols tb \<and> prefix (rows tb) (rows tb')))
      \<and> (\<forall>t. conn s t = None \<longrightarrow> conn s' t = None))"

text \<open>
  What the schema pass leaves behind for a document: its table is registered and exists,
  and so does, recursively, the child table of every field that is not registered as a
  scalar column and whose value is an object or an array starting with an object. Only
  the first element of an array is looked at, as in \<^verbatim>\<open>_create_table_if_not_exists\<close>.
\<close>

function schema_covers :: "converter \<Rightarrow> string \<Rightarrow> json \<Rightarrow> bool"
  and schema_covers_fields :: "converter \<Rightarrow> string \<Rightarrow> (string \<times> json) list \<Rightarrow> bool"
where
  "schema_covers s table_name0 data =
     (let table_name = sanitize_name table_name0 in
      case data of
        JObj items \<Rightarrow>
          table_name \<in> dom (known_tables s) \<and> find_table (conn s) table_name \<noteq> None
          \<and> schema_covers_fields s table_name items
      | _ \<Rightarrow> False)"
| "schema_covers_fields s table_name [] = True"
| "schema_covers_fields s table_name ((key, value) # rest) =
     ((let column_name = sanitize_name key in
       case known_tables s table_name of
         None \<Rightarrow> False
       | Some known \<Rightarrow>
           column_name \<in> known
           \<or> (if is_dict value then
                 schema_covers s (table_name @ ''__'' @ column_name) value
               else if is_list value \<and> elems value \<noteq> [] \<and> is_dict (hd (elems value)) then
                 schema_covers s (table_name @ ''__'' @ column_name) (hd (elems value))
               else True))
      \<and> schema_covers_fields s table_name rest)"
  by pat_completeness auto
termination
proof -
  have hd_smaller: "size (hd (elems v)) < size v" if "is_list v" "elems v \<noteq> []" for v
    using that by (cases v; cases "elems v") auto
  show ?thesis
    by (relation "measure (\<lambda>x. case x of
            Inl (s, t, d) \<Rightarrow> 2 * size d
          | Inr (s, t, items) \<Rightarrow> 2 * size_list (size_prod (\<lambda>_. 0) size) items + 1)")
       (auto dest: hd_smaller)
qed

text \<open>
  \<open>write_reaches d v\<close>: unless an exception stops it earlier, writing document \<open>d\<close> calls
  \<^verbatim>\<open>_insert_data\<close> on \<open>v\<close>, following the loops of \<^verbatim>\<open>_insert_data\<close>: the composite
  fields as partitioned, objects, and every element of an array that starts with an object.
\<close>

inductive write_reaches :: "json \<Rightarrow> json \<Rightarrow> bool" where
  reaches_self: "write_reaches d d"
| reaches_object:
    "(c, w) \<in> set (snd (split_fields items [] [])) \<Longrightarrow> is_dict w \<Longrightarrow> write_reaches w v
     \<Longrightarrow> write_reaches (JObj items) v"
| reaches_element:
    "(c, w) \<in> set (snd (split_fields items [] [])) \<Longrightarrow> \<not> is_dict w \<Longrightarrow> is_list w
     \<Longrightarrow> elems w \<noteq> [] \<Longrightarrow> is_dict (hd (elems w)) \<Longrightarrow> x \<in> set (elems w)
     \<Longrightarrow> write_reaches x v \<Longrightarrow> write_reaches (JObj items) v"

text \<open>Rows of a table (none when the table does not exist).\<close>

definition table_rows :: "converter \<Rightarrow> string \<Rightarrow> (int \<times> row) list" where
  "table_rows s t = (case find_table (conn s) t of None \<Rightarrow> [] | Some tb \<Rightarrow> rows tb)"

text \<open>The declaration of a column of a table, looked up as the engine compares names.\<close>

definition column_decl :: "converter \<Rightarrow> string \<Rightarrow> string \<Rightarrow> decl option" where
  "column_decl s t c =
     (case find_table (conn s) t of
        None \<Rightarrow> None
      | Some tb \<Rightarrow> map_option snd (find (\<lambda>col. fold_case (fst col) = fold_case c) (cols tb)))"

text \<open>
  The name of the column that \<^verbatim>\<open>ADD COLUMN\<close> creates for a scalar field: the sanitized
  key, or the name of the type when the sanitized key is empty.
\<close>

definition added_column :: "string \<Rightarrow> json \<Rightarrow> string" where
  "added_column key value =
     (if sanitize_name key = [] then type_name (get_sqlite_type value) else sanitize_name key)"

text \<open>
  \<open>first_seen s T p pre c\<close>: a field with column name \<open>c\<close> that follows the fields
  \<open>pre\<close> in a document for table \<open>T\<close> (with parent \<open>p\<close>) is the first sight of that
  column. The name is not empty, the table has no column of that name so far, the
  registry does not list it, it is not one of the columns a new table is created with,
  and no scalar field before it adds a column of that name. Names are compared as the
  engine compares them.
\<close>

definition first_seen ::
    "converter \<Rightarrow> string \<Rightarrow> string option \<Rightarrow> (string \<times> json) list \<Rightarrow> string \<Rightarrow> bool" where
  "first_seen s T p pre c =
     (c \<noteq> [] \<and> column_decl s T c = None
      \<and> c \<notin> (case known_tables s T of None \<Rightarrow> {} | Some K \<Rightarrow> K)
      \<and> fold_case c \<noteq> ''row__id''
      \<and> (truthy p \<longrightarrow> fold_case c \<noteq> fold_case (the p @ ''_id''))
      \<and> (\<forall>kv \<in> set pre. \<not> is_dict (snd kv) \<and> \<not> is_list (snd kv)
             \<longrightarrow> fold_case (added_column (fst kv) (snd kv)) \<noteq> fold_case c))"

text \<open>
  The row \<^verbatim>\<open>_insert_data\<close> builds for an object: its scalar fields under their column
  names, then the parent reference when a parent identifier is given.
\<close>

fun row_of :: "json \<Rightarrow> string \<Rightarrow> int option \<Rightarrow> row" where
  "row_of (JObj items) table_name parent_id =
     fst (split_fields items [] []) @
     (case parent_id of
        None \<Rightarrow> []
      | Some pid \<Rightarrow> [(parent_table_of table_name @ ''_id'', JInt pid)])"
| "row_of _ table_name parent_id = []"

text \<open>A record's own row is accepted by its table: the record is an object and the
  \<^verbatim>\<open>INSERT\<close> of its scalar fields succeeds.\<close>

definition row_accepted :: "converter \<Rightarrow> string \<Rightarrow> json \<Rightarrow> int option \<Rightarrow> bool" where
  "row_accepted s table_name data parent_id =
     (is_dict data \<and> \<not> isl (exec_insert (conn s) table_name (row_of data table_name parent_id)))"

text \<open>A value on which \<^verbatim>\<open>_insert_data\<close> raises whatever the state, table and parent.\<close>

definition always_raises :: "json \<Rightarrow> bool" where
  "always_raises v = (\<forall>s t pid. isl (fst (insert_data s t v pid)))"

definition raising_field :: "json \<Rightarrow> bool" where
  "raising_field w =
     (is_dict w \<and> always_raises w
      \<or> \<not> is_dict w \<and> is_list w \<and> elems w \<noteq> [] \<and> is_dict (hd (elems w))
         \<and> (\<exists>x \<in> set (elems w). always_raises x))"

section \<open>Example inputs\<close>

definition fresh :: converter where
  "fresh = new_converter Map.empty ''root''"

definition padded_array :: string where
  "padded_array = '' [{}]''"

definition loads_padded :: "string \<Rightarrow> json option" where
  "loads_padded text = (if text = padded_array then Some (JArr [JObj []]) else None)"

definition doc_dunder :: json where
  "doc_dunder = JObj [(''a__b'', JObj [(''c'', JInt 1)])]"

definition schema_dunder :: converter where
  "schema_dunder = snd (json_schema_pass fresh [doc_dunder])"

definition doc_late_nested :: json where
  "doc_late_nested =
     JObj [(''items'', JArr [JObj [(''a'', JInt 1)], JObj [(''b'', JObj [(''c'', JInt 1)])]])]"

definition schema_late_nested :: converter where
  "schema_late_nested = snd (json_schema_pass fresh [doc_late_nested])"

definition doc_mixed_items :: json where
  "doc_mixed_items = JObj [(''items'', JArr [JObj [(''a'', JInt 1)], JObj [(''b'', JInt 2)]])]"

definition written_mixed_items :: converter where
  "written_mixed_items =
     snd (json_write_pass (snd (json_schema_pass fresh [doc_mixed_items])) 1 [doc_mixed_items])"

definition doc_failing_child :: json where
  "doc_failing_child =
     JObj [(''a'', JInt 1), (''items'', JArr [JObj [(''x'', JInt 1)], JObj [(''y'', JInt 2)]])]"

definition schema_failing_child :: converter where
  "schema_failing_child = snd (json_schema_pass fresh [doc_failing_child])"

definition doc_bad_element :: json where
  "doc_bad_element = JObj [(''items'', JArr [JObj [(''a'', JInt 1)], JInt 5])]"

definition schema_bad_element :: converter where
  "schema_bad_element = snd (json_schema_pass fresh [doc_bad_element])"

definition written_bad_element :: converter where
  "written_bad_element = snd (json_write_pass schema_bad_element 1 [doc_bad_element])"

definition doc_unreached :: json where
  "doc_unreached =
     JObj [(''x'', JArr [JInt 1, JObj [(''items'', JArr [JObj [(''a'', JInt 1)], JInt 5])]])]"

definition schema_unreached :: converter where
  "schema_unreached = snd (json_schema_pass fresh [doc_unreached])"

definition reopened :: converter where
  "reopened = \<lparr>known_tables = [''root'' \<mapsto> {}], root_table = ''root'',
      conn = [''root'' \<mapsto> \<lparr>cols = [(''row__id'', PrimaryKey), (''a'', Declared INTEGER)],
                             rows = [], seq = 0\<rparr>]\<rparr>"

definition dangling :: converter where
  "dangling = \<lparr>known_tables = [''root'' \<mapsto> {}], root_table = ''root'', conn = Map.empty\<rparr>"

definition schema_once :: converter where
  "schema_once = snd (create_table_if_not_exists fresh ''root'' doc_late_nested None)"

definition doc_same_column :: json where
  "doc_same_column =
     JObj [(''a_b'', JObj [(''c'', JInt 1)]), (''a-b'', JInt 5), (''a b'', JObj [(''d'', JInt 2)])]"

definition run_once :: converter where
  "run_once = snd (create_table_if_not_exists fresh ''root'' doc_same_column None)"

definition run_twice :: converter where
  "run_twice =
     snd (create_table_if_not_exists (new_converter (conn run_once) ''root'') ''root''
            doc_same_column None)"

definition doc_late_invalid :: json where
  "doc_late_invalid = JObj [(''a-b'', JInt 5), (''a b'', JObj [(''1'', JInt 2)])]"

definition invalid_once :: converter where
  "invalid_once = snd (create_table_if_not_exists fresh ''root'' doc_late_invalid None)"

definition doc_null :: json where
  "doc_null = JObj [(''a'', JInt 1), (''b'', JNull)]"

definition schema_null :: converter where
  "schema_null = snd (create_table_if_not_exists fresh ''root'' doc_null None)"

definition doc_row_id_null :: json where
  "doc_row_id_null = JObj [(''row__id'', JNull)]"

definition schema_row_id_null :: converter where
  "schema_row_id_null = snd (json_schema_pass fresh [doc_row_id_null])"

definition doc_digits_null :: json where
  "doc_digits_null = JObj [(''2020'', JNull)]"

definition doc_returning :: json where
  "doc_returning = JObj [(''returning'', JInt 1)]"

section \<open>Names\<close>

lemma isalnum_underscore [simp]: "\<not> isalnum CHR ''_''"
  by (simp add: isalnum_def)

lemma sanitize_char_underscore [simp]: "sanitize_char CHR ''_'' = CHR ''_''"
  by (simp add: sanitize_char_def)

lemma sanitize_char_idem [simp]: "sanitize_char (sanitize_char c) = sanitize_char c"
  by (simp add: sanitize_char_def)

lemma lower_char_underscore [simp]: "lower_char CHR ''_'' = CHR ''_''"
  by (simp add: lower_char_def)

lemma has_dunder_append: "has_dunder (x @ ''__'' @ y)"
proof (induction x rule: has_dunder.induct)
  fix v :: char
  show "has_dunder ([v] @ ''__'' @ y)" by (cases y) simp_all
qed simp_all

lemma reserved_no_dunder: "w \<in> reserved_keywords \<Longrightarrow> \<not> has_dunder w"
  unfolding reserved_keywords_def by (elim insertE emptyE) simp_all

lemma sanitize_name_path:
  "sanitize_name (T @ ''__'' @ c) = map sanitize_char T @ ''__'' @ map sanitize_char c"
proof -
  have "lower (map sanitize_char (T @ ''__'' @ c))
          = lower (map sanitize_char T) @ ''__'' @ lower (map sanitize_char c)"
    by (simp add: lower_def sanitize_char_def)
  then have "has_dunder (lower (map sanitize_char (T @ ''__'' @ c)))"
    by (simp only: has_dunder_append)
  then have "lower (map sanitize_char (T @ ''__'' @ c)) \<notin> reserved_keywords"
    using reserved_no_dunder by blast
  then show ?thesis
    by (simp add: sanitize_name_def Let_def sanitize_char_def)
qed

lemma clean_sanitize_name [simp]: "clean (sanitize_name t)"
  by (simp add: clean_def sanitize_name_def Let_def)

lemma clean_path: "clean T \<Longrightarrow> clean c \<Longrightarrow> sanitize_name (T @ ''__'' @ c) = T @ ''__'' @ c"
  using sanitize_name_path[of T c] by (simp add: clean_def)

lemma clean_child [simp]: "clean T \<Longrightarrow> clean c \<Longrightarrow> clean (T @ ''__'' @ c)"
  by (simp add: clean_def sanitize_char_def)

lemma fold_case_append [simp]: "fold_case (a @ b) = fold_case a @ fold_case b"
  by (simp add: fold_case_def)

lemma fold_case_length [simp]: "length (fold_case a) = length a"
  by (simp add: fold_case_def)

lemma fold_char_underscore [simp]: "fold_char CHR ''_'' = CHR ''_''"
  by (simp add: fold_char_def)

lemma fold_case_dunder [simp]: "fold_case ''__'' = ''__''"
  by (simp add: fold_case_def)

lemma below_self [simp]: "below T (fold_case T)"
  by (simp add: below_def)

lemma fold_case_path: "fold_case (T @ ''__'' @ c) = fold_case T @ ''__'' @ fold_case c"
  by (simp add: fold_case_def)

lemma below_child: "below (T @ ''__'' @ c) u \<Longrightarrow> below T u"
proof -
  assume "below (T @ ''__'' @ c) u"
  then consider "u = fold_case T @ ''__'' @ fold_case c"
    | zs where "u = (fold_case T @ ''__'' @ fold_case c) @ ''__'' @ zs"
    unfolding below_def fold_case_path prefix_def by auto
  then show ?thesis
  proof cases
    case 1
    then have "prefix (fold_case T @ ''__'') u" unfolding prefix_def by simp
    then show ?thesis by (simp only: below_def simp_thms)
  next
    case 2
    then have "prefix (fold_case T @ ''__'') u" unfolding prefix_def by simp
    then show ?thesis by (simp only: below_def simp_thms)
  qed
qed

lemma not_below_child_self [simp]: "\<not> below (T @ ''__'' @ c) (fold_case T)"
proof
  assume "below (T @ ''__'' @ c) (fold_case T)"
  then have "length (fold_case T) \<ge> length (T @ ''__'' @ c)"
    by (auto simp: below_def prefix_def dest!: arg_cong[where f = length])
  then show False by simp
qed

lemma path_below_self [simp]: "path_below T T"
  by (simp add: path_below_def)

lemma path_below_child: "path_below (T @ ''__'' @ c) n \<Longrightarrow> path_below T n"
  by (auto simp: path_below_def prefix_def)

lemma not_path_below_child_self [simp]: "\<not> path_below (T @ ''__'' @ c) T"
proof
  assume "path_below (T @ ''__'' @ c) T"
  then have "length T \<ge> length (T @ ''__'' @ c)"
    by (auto simp: path_below_def prefix_def dest!: arg_cong[where f = length])
  then show False by simp
qed

section \<open>The engine's statements\<close>

lemma create_table_result:
  assumes "exec_create_table d n cs = Inr d'"
  shows "(d' = d \<and> find_table d n \<noteq> None)
         \<or> (find_table d n = None \<and> d' = d(fold_case n \<mapsto> \<lparr>cols = cs, rows = [], seq = 0\<rparr>))"
  using assms
  by (auto simp: exec_create_table_def split: if_splits list.splits option.splits)

lemma create_table_exists:
  "exec_create_table d n cs = Inr d' \<Longrightarrow> find_table d' n \<noteq> None"
  by (drule create_table_result) (auto simp: find_table_def)

lemma add_column_result:
  assumes "exec_add_column d n c ty = Inr d'"
  shows "\<exists>tb col. find_table d n = Some tb \<and> length (cols tb) < 2000
           \<and> col = (if c = [] then (type_name ty, Untyped) else (c, Declared ty))
           \<and> \<not> has_column tb (fst col)
           \<and> d' = d(fold_case n \<mapsto> tb\<lparr>cols := cols tb @ [col]\<rparr>)"
  using assms
  by (auto simp: exec_add_column_def Let_def split: if_splits option.splits)

lemma add_column_duplicate:
  assumes "exec_add_column d n c ty = Inl e" "is_duplicate_column e"
  shows "\<exists>tb. find_table d n = Some tb \<and> valid_identifier n \<and> \<not> internal_name n
           \<and> (c = [] \<or> valid_identifier c) \<and> length (cols tb) < 2000
           \<and> has_column tb (if c = [] then type_name ty else c)"
  using assms
  by (auto simp: exec_add_column_def Let_def split: if_splits option.splits)

lemma insert_result:
  assumes "exec_insert d n r = Inr (d', rid)"
  shows "\<exists>tb. find_table d n = Some tb
           \<and> d' = d(fold_case n \<mapsto> tb\<lparr>rows := rows tb @ [(rid, r)], seq := max (seq tb) rid\<rparr>)"
  using assms
  by (auto simp: exec_insert_def split: if_splits list.splits option.splits row_id_request.splits)

section \<open>Basic facts about the writer\<close>

declare insert_data.simps [simp del] create_table_if_not_exists.simps [simp del]

lemma non_dict_raises: "\<not> is_dict v \<Longrightarrow> insert_data s t v pid = (Inl AttributeError, s)"
  by (cases v) (simp_all add: insert_data.simps)

lemma insert_data_obj:
  "insert_data s t (JObj items) pid =
     (case exec_insert (conn s) (sanitize_name t) (row_of (JObj items) (sanitize_name t) pid) of
        Inl e \<Rightarrow> (Inl e, s)
      | Inr (d, rid) \<Rightarrow>
          (case insert_nested (s\<lparr>conn := d\<rparr>) (sanitize_name t)
                  (snd (split_fields items [] [])) rid of
             (Inl e, s') \<Rightarrow> (Inl e, s')
           | (Inr _, s') \<Rightarrow> (Inr rid, s')))"
  by (cases pid; cases "fst (split_fields items [] []) = []")
     (simp_all add: insert_data.simps Let_def)

lemma create_table_obj:
  "create_table_if_not_exists s t (JObj items) p =
     (case register_table s (sanitize_name t) p of
        (Inl e, s1) \<Rightarrow> (Inl e, s1)
      | (Inr _, s1) \<Rightarrow> create_fields s1 (sanitize_name t) items)"
  by (auto simp: create_table_if_not_exists.simps Let_def split: prod.splits sum.splits)

lemma create_table_non_dict:
  "\<not> is_dict d \<Longrightarrow> isl (fst (create_table_if_not_exists s t d p))"
  by (cases d) (auto simp: create_table_if_not_exists.simps Let_def split: prod.splits sum.splits)

section \<open>The steps of the schema operations and of the writer\<close>

lemma create_outcomes:
  fixes R :: "string \<Rightarrow> converter \<Rightarrow> bool \<Rightarrow> converter \<Rightarrow> bool"
  assumes rrefl: "\<And>T s. R T s False s"
    and rfail: "\<And>T s. R T s True s"
    and rtrans: "\<And>T a b c f. R T a False b \<Longrightarrow> R T b f c \<Longrightarrow> R T a f c"
    and reg: "\<And>s T p r s'. register_table s T p = (r, s') \<Longrightarrow> R T s (isl r) s'"
    and add: "\<And>s T c ty d K. exec_add_column (conn s) T c ty = Inr d
                \<Longrightarrow> known_tables s T = Some K
                \<Longrightarrow> R T s False
                      (s\<lparr>conn := d, known_tables := (known_tables s)(T \<mapsto> insert c K)\<rparr>)"
    and child: "\<And>T c s f s'. R (sanitize_name (T @ ''__'' @ c)) s f s' \<Longrightarrow> R T s f s'"
  shows "create_table_if_not_exists s t0 d p = (r, s') \<Longrightarrow> R (sanitize_name t0) s (isl r) s'"
    and "create_fields s t items = (r', s'') \<Longrightarrow> R t s (isl r') s''"
proof (induction s t0 d p and s t items arbitrary: r s' and r' s''
       rule: create_table_if_not_exists_create_fields.induct)
  case (1 s table_name0 data parent_table)
  let ?T = "sanitize_name table_name0"
  obtain r1 s1 where rg: "register_table s ?T parent_table = (r1, s1)"
    by (cases "register_table s ?T parent_table")
  have le1: "R ?T s (isl r1) s1" using rg by (rule reg)
  show ?case
  proof (cases r1)
    case (Inl e)
    with rg "1.prems" have "s' = s1" "isl r"
      by (auto simp: create_table_if_not_exists.simps Let_def)
    with le1 Inl show ?thesis by simp
  next
    case (Inr b)
    with le1 have le1': "R ?T s False s1" by simp
    show ?thesis
    proof (cases data)
      case (JObj items)
      with rg Inr "1.prems" have "create_fields s1 ?T items = (r, s')"
        by (simp add: create_table_if_not_exists.simps Let_def)
      from "1.IH"[OF refl rg[symmetric] Inr JObj this] have "R ?T s1 (isl r) s'" .
      with le1' show ?thesis by (rule rtrans)
    next
      case JNull
      with rg Inr "1.prems" have "s' = s1" "isl r"
        by (auto simp: create_table_if_not_exists.simps Let_def)
      with rtrans[OF le1' rfail] show ?thesis by simp
    next
      case (JBool x)
      with rg Inr "1.prems" have "s' = s1" "isl r"
        by (auto simp: create_table_if_not_exists.simps Let_def)
      with rtrans[OF le1' rfail] show ?thesis by simp
    next
      case (JInt x)
      with rg Inr "1.prems" have "s' = s1" "isl r"
        by (auto simp: create_table_if_not_exists.simps Let_def)
      with rtrans[OF le1' rfail] show ?thesis by simp
    next
      case (JFloat x y)
      with rg Inr "1.prems" have "s' = s1" "isl r"
        by (auto simp: create_table_if_not_exists.simps Let_def)
      with rtrans[OF le1' rfail] show ?thesis by simp
    next
      case (JStr x)
      with rg Inr "1.prems" have "s' = s1" "isl r"
        by (auto simp: create_table_if_not_exists.simps Let_def)
      with rtrans[OF le1' rfail] show ?thesis by simp
    next
      case (JArr x)
      with rg Inr "1.prems" have "s' = s1" "isl r"
        by (auto simp: create_table_if_not_exists.simps Let_def)
      with rtrans[OF le1' rfail] show ?thesis by simp
    qed
  qed
next
  case (2 s table_name)
  then show ?case by (auto simp: rrefl)
next
  case (3 s table_name key "value" rest)
  let ?c = "sanitize_name key"
  let ?child = "table_name @ ''__'' @ ?c"
  show ?case
  proof (cases "known_tables s table_name")
    case None
    with "3.prems" show ?thesis by (auto simp: rfail)
  next
    case (Some known)
    show ?thesis
    proof (cases "?c \<in> known")
      case True
      with Some "3.prems" have "create_fields s table_name rest = (r', s'')" by simp
      with "3.IH"(8) Some True show ?thesis by simp
    next
      case notin: False
      show ?thesis
      proof (cases "get_sqlite_type value = REFERENCE")
        case ref: True
        show ?thesis
        proof (cases "is_dict value")
          case True
          obtain r1 s1 where c1: "create_table_if_not_exists s ?child value (Some table_name) = (r1, s1)"
            by (cases "create_table_if_not_exists s ?child value (Some table_name)")
          from "3.IH"(1)[OF refl Some notin refl ref True c1]
          have "R (sanitize_name ?child) s (isl r1) s1" .
          then have le1: "R table_name s (isl r1) s1" by (rule child)
          show ?thesis
          proof (cases r1)
            case (Inl e)
            with c1 Some notin ref True "3.prems" have "s'' = s1" "isl r'" by (auto simp: Let_def)
            with le1 Inl show ?thesis by simp
          next
            case (Inr b)
            with c1 Some notin ref True "3.prems" have "create_fields s1 table_name rest = (r', s'')"
              by (simp add: Let_def)
            from "3.IH"(2)[OF refl Some notin refl ref True c1[symmetric] Inr this]
            have "R table_name s1 (isl r') s''" .
            with le1 Inr show ?thesis by (auto intro: rtrans)
          qed
        next
          case nd: False
          show ?thesis
          proof (cases "is_list value \<and> elems value \<noteq> [] \<and> is_dict (hd (elems value))")
            case True
            obtain r1 s1 where c1:
              "create_table_if_not_exists s ?child (hd (elems value)) (Some table_name) = (r1, s1)"
              by (cases "create_table_if_not_exists s ?child (hd (elems value)) (Some table_name)")
            from "3.IH"(3)[OF refl Some notin refl ref nd True c1]
            have "R (sanitize_name ?child) s (isl r1) s1" .
            then have le1: "R table_name s (isl r1) s1" by (rule child)
            show ?thesis
            proof (cases r1)
              case (Inl e)
              with c1 Some notin ref nd True "3.prems" have "s'' = s1" "isl r'"
                by (auto simp: Let_def)
              with le1 Inl show ?thesis by simp
            next
              case (Inr b)
              with c1 Some notin ref nd True "3.prems"
              have "create_fields s1 table_name rest = (r', s'')"
                by (simp add: Let_def)
              from "3.IH"(4)[OF refl Some notin refl ref nd True c1[symmetric] Inr this]
              have "R table_name s1 (isl r') s''" .
              with le1 Inr show ?thesis by (auto intro: rtrans)
            qed
          next
            case False
            with Some notin ref nd "3.prems" have "create_fields s table_name rest = (r', s'')"
              by (auto simp: Let_def)
            from "3.IH"(5)[OF refl Some notin refl ref nd False this] show ?thesis .
          qed
        qed
      next
        case scalar: False
        show ?thesis
        proof (cases "exec_add_column (conn s) table_name ?c (get_sqlite_type value)")
          case (Inr d)
          let ?s2 = "s\<lparr>conn := d, known_tables := (known_tables s)(table_name \<mapsto> insert ?c known)\<rparr>"
          from Inr Some notin scalar "3.prems" have "create_fields ?s2 table_name rest = (r', s'')"
            by (simp add: Let_def)
          from "3.IH"(7)[OF refl Some notin refl scalar Inr this]
          have "R table_name ?s2 (isl r') s''" .
          with add[OF Inr Some] show ?thesis by (rule rtrans)
        next
          case (Inl e)
          show ?thesis
          proof (cases "is_duplicate_column e")
            case True
            with Inl Some notin scalar "3.prems" have "create_fields s table_name rest = (r', s'')"
              by (simp add: Let_def)
            from "3.IH"(6)[OF refl Some notin refl scalar Inl True this] show ?thesis .
          next
            case False
            with Inl Some notin scalar "3.prems" show ?thesis by (auto simp: Let_def rfail)
          qed
        qed
      qed
    qed
  qed
qed

lemma create_steps:
  fixes R :: "string \<Rightarrow> converter \<Rightarrow> converter \<Rightarrow> bool"
  assumes rrefl: "\<And>T s. R T s s"
    and rtrans: "\<And>T a b c. R T a b \<Longrightarrow> R T b c \<Longrightarrow> R T a c"
    and reg: "\<And>s T p r s'. register_table s T p = (r, s') \<Longrightarrow> R T s s'"
    and add: "\<And>s T c ty d K. exec_add_column (conn s) T c ty = Inr d
                \<Longrightarrow> known_tables s T = Some K
                \<Longrightarrow> R T s (s\<lparr>conn := d, known_tables := (known_tables s)(T \<mapsto> insert c K)\<rparr>)"
    and child: "\<And>T c s s'. R (sanitize_name (T @ ''__'' @ c)) s s' \<Longrightarrow> R T s s'"
  shows "create_table_if_not_exists s t0 d p = (r, s') \<Longrightarrow> R (sanitize_name t0) s s'"
    and "create_fields s t items = (r', s'') \<Longrightarrow> R t s s''"
proof -
  show "create_table_if_not_exists s t0 d p = (r, s') \<Longrightarrow> R (sanitize_name t0) s s'"
    by (rule create_outcomes(1)[where R = "\<lambda>T s f s'. R T s s'"])
       (auto intro: rrefl rtrans reg add child)
  show "create_fields s t items = (r', s'') \<Longrightarrow> R t s s''"
    by (rule create_outcomes(2)[where R = "\<lambda>T s f s'. R T s s'"])
       (auto intro: rrefl rtrans reg add child)
qed

lemma insert_steps:
  fixes R :: "string \<Rightarrow> converter \<Rightarrow> converter \<Rightarrow> bool"
  assumes rrefl: "\<And>T s. R T s s"
    and rtrans: "\<And>T a b c. R T a b \<Longrightarrow> R T b c \<Longrightarrow> R T a c"
    and ins: "\<And>s T rw d rid. exec_insert (conn s) T rw = Inr (d, rid) \<Longrightarrow> R T s (s\<lparr>conn := d\<rparr>)"
    and child: "\<And>T c s s'. R (sanitize_name (T @ ''__'' @ c)) s s' \<Longrightarrow> R T s s'"
  shows "insert_data s t0 d pid = (r, s') \<Longrightarrow> R (sanitize_name t0) s s'"
    and "insert_nested s t nd rid = (r', s'') \<Longrightarrow> R t s s''"
    and "insert_items s nt xs rid' = (r'', s''') \<Longrightarrow> R (sanitize_name nt) s s'''"
proof (induction s t0 d pid and s t nd rid and s nt xs rid' arbitrary: r s' and r' s'' and r'' s'''
       rule: insert_data_insert_nested_insert_items.induct)
  case (1 s table_name0 data parent_id)
  let ?T = "sanitize_name table_name0"
  show ?case
  proof (cases data)
    case (JObj items)
    let ?ins = "exec_insert (conn s) ?T (row_of (JObj items) ?T parent_id)"
    have raw: "(if fst (split_fields items [] []) \<noteq> []
            then case parent_id of None \<Rightarrow> exec_insert (conn s) ?T (fst (split_fields items [] []))
                 | Some pid \<Rightarrow>
                     exec_insert (conn s) ?T
                      (fst (split_fields items [] []) @ [(parent_table_of ?T @ ''_id'', JInt pid)])
            else case parent_id of None \<Rightarrow> exec_insert (conn s) ?T []
                 | Some pid \<Rightarrow>
                     exec_insert (conn s) ?T [(parent_table_of ?T @ ''_id'', JInt pid)]) = ?ins"
      by (cases parent_id; cases "fst (split_fields items [] []) = []") simp_all
    show ?thesis
    proof (cases ?ins)
      case (Inl e)
      with JObj "1.prems" show ?thesis by (simp add: insert_data_obj rrefl)
    next
      case (Inr pr)
      obtain d rid where pr: "pr = (d, rid)" by (cases pr)
      from Inr pr have le1: "R ?T s (s\<lparr>conn := d\<rparr>)" by (auto intro: ins)
      obtain r2 s2 where n: "insert_nested (s\<lparr>conn := d\<rparr>) ?T (snd (split_fields items [] [])) rid = (r2, s2)"
        by (cases "insert_nested (s\<lparr>conn := d\<rparr>) ?T (snd (split_fields items [] [])) rid")
      from "1.IH"[OF refl JObj refl refl trans[OF raw Inr] pr[symmetric] n]
      have "R ?T (s\<lparr>conn := d\<rparr>) s2" .
      with le1 have "R ?T s s2" by (rule rtrans)
      moreover from JObj "1.prems" Inr pr n have "s' = s2"
        by (auto simp: insert_data_obj split: sum.splits)
      ultimately show ?thesis by simp
    qed
  qed (use "1.prems" in \<open>auto simp: insert_data.simps rrefl\<close>)
next
  case (2 s table_name row__id)
  then show ?case by (simp add: rrefl)
next
  case (3 s table_name key "value" rest row__id)
  let ?nt = "table_name @ ''__'' @ key"
  show ?case
  proof (cases "is_dict value")
    case True
    obtain r1 s1 where c1: "insert_data s ?nt value (Some row__id) = (r1, s1)"
      by (cases "insert_data s ?nt value (Some row__id)")
    from "3.IH"(1)[OF refl True c1] have "R (sanitize_name ?nt) s s1" .
    then have le1: "R table_name s s1" by (rule child)
    show ?thesis
    proof (cases r1)
      case (Inl e)
      with c1 True "3.prems" have "s'' = s1" by (simp add: Let_def)
      with le1 show ?thesis by simp
    next
      case (Inr b)
      with c1 True "3.prems" have "insert_nested s1 table_name rest row__id = (r', s'')"
        by (simp add: Let_def)
      from "3.IH"(2)[OF refl True c1[symmetric] Inr this] have "R table_name s1 s''" .
      with le1 show ?thesis by (rule rtrans)
    qed
  next
    case nd: False
    show ?thesis
    proof (cases "is_list value \<and> elems value \<noteq> [] \<and> is_dict (hd (elems value))")
      case True
      obtain r1 s1 where c1: "insert_items s ?nt (elems value) row__id = (r1, s1)"
        by (cases "insert_items s ?nt (elems value) row__id")
      from "3.IH"(3)[OF refl nd True c1] have "R (sanitize_name ?nt) s s1" .
      then have le1: "R table_name s s1" by (rule child)
      show ?thesis
      proof (cases r1)
        case (Inl e)
        with c1 nd True "3.prems" have "s'' = s1" by (simp add: Let_def)
        with le1 show ?thesis by simp
      next
        case (Inr b)
        with c1 nd True "3.prems" have "insert_nested s1 table_name rest row__id = (r', s'')"
          by (simp add: Let_def)
        from "3.IH"(4)[OF refl nd True c1[symmetric] Inr this] have "R table_name s1 s''" .
        with le1 show ?thesis by (rule rtrans)
      qed
    next
      case False
      with nd "3.prems" have "insert_nested s table_name rest row__id = (r', s'')"
        by (auto simp: Let_def)
      from "3.IH"(5)[OF refl nd False this] show ?thesis .
    qed
  qed
next
  case (4 s nested_table row__id)
  then show ?case by (simp add: rrefl)
next
  case (5 s nested_table item rest row__id)
  obtain r1 s1 where c1: "insert_data s nested_table item (Some row__id) = (r1, s1)"
    by (cases "insert_data s nested_table item (Some row__id)")
  from "5.IH"(1)[OF c1] have le1: "R (sanitize_name nested_table) s s1" .
  show ?case
  proof (cases r1)
    case (Inl e)
    with c1 "5.prems" have "s''' = s1" by simp
    with le1 show ?thesis by simp
  next
    case (Inr b)
    with c1 "5.prems" have "insert_items s1 nested_table rest row__id = (r'', s''')" by simp
    from "5.IH"(2)[OF c1[symmetric] Inr this] have "R (sanitize_name nested_table) s1 s'''" .
    with le1 show ?thesis by (rule rtrans)
  qed
qed

section \<open>Schema operations only extend the schema\<close>

lemma schema_le_refl [simp]: "schema_le s s"
  by (simp add: schema_le_def)

lemma schema_leD_root: "schema_le s s' \<Longrightarrow> root_table s' = root_table s"
  by (simp add: schema_le_def)

lemma schema_leD_known:
  "schema_le s s' \<Longrightarrow> known_tables s t = Some known
   \<Longrightarrow> \<exists>known'. known_tables s' t = Some known' \<and> known \<subseteq> known'"
  by (simp add: schema_le_def)

lemma schema_leD_conn:
  "schema_le s s' \<Longrightarrow> conn s t = Some tb
   \<Longrightarrow> \<exists>tb'. conn s' t = Some tb' \<and> prefix (cols tb) (cols tb')
          \<and> rows tb' = rows tb \<and> seq tb' = seq tb"
  by (simp add: schema_le_def)

lemma schema_leD_new:
  "schema_le s s' \<Longrightarrow> conn s t = None \<Longrightarrow> conn s' t = Some tb' \<Longrightarrow> rows tb' = [] \<and> seq tb' = 0"
  by (simp add: schema_le_def)

lemma schema_le_trans:
  assumes ab: "schema_le a b" and bc: "schema_le b c"
  shows "schema_le a c"
proof -
  have h1: "root_table c = root_table a"
    using schema_leD_root[OF ab] schema_leD_root[OF bc] by simp
  have h2: "\<exists>known'. known_tables c t = Some known' \<and> known \<subseteq> known'"
    if "known_tables a t = Some known" for t known
  proof -
    from schema_leD_known[OF ab that] obtain k1 where k1: "known_tables b t = Some k1" "known \<subseteq> k1"
      by blast
    from schema_leD_known[OF bc k1(1)] obtain k2 where "known_tables c t = Some k2" "k1 \<subseteq> k2"
      by blast
    with k1 show ?thesis by blast
  qed
  have h3: "\<exists>tb'. conn c t = Some tb' \<and> prefix (cols tb) (cols tb')
          \<and> rows tb' = rows tb \<and> seq tb' = seq tb"
    if "conn a t = Some tb" for t tb
  proof -
    from schema_leD_conn[OF ab that] obtain t1 where t1: "conn b t = Some t1"
      "prefix (cols tb) (cols t1)" "rows t1 = rows tb" "seq t1 = seq tb" by blast
    from schema_leD_conn[OF bc t1(1)] obtain t2 where t2: "conn c t = Some t2"
      "prefix (cols t1) (cols t2)" "rows t2 = rows t1" "seq t2 = seq t1" by blast
    from t1 t2 have "prefix (cols tb) (cols t2)" by (meson prefix_order.trans)
    with t1 t2 show ?thesis by simp
  qed
  have h4: "rows tb' = [] \<and> seq tb' = 0" if n: "conn a t = None" and c: "conn c t = Some tb'"
    for t tb'
  proof (cases "conn b t")
    case None
    from schema_leD_new[OF bc None c] show ?thesis .
  next
    case (Some t1)
    from schema_leD_new[OF ab n Some] have e: "rows t1 = []" "seq t1 = 0" by simp_all
    from schema_leD_conn[OF bc Some] c have "rows tb' = rows t1" "seq tb' = seq t1" by auto
    with e show ?thesis by simp
  qed
  show ?thesis
    unfolding schema_le_def using h1 h2 h3 h4 by blast
qed

lemma register_table_cases:
  assumes "register_table s T p = (r, s')"
  shows "(T \<in> dom (known_tables s) \<and> r = Inr () \<and> s' = s)
       \<or> (T \<notin> dom (known_tables s) \<and> (\<exists>e. r = Inl e)
           \<and> s' = s\<lparr>known_tables := (known_tables s)(T \<mapsto> {})\<rparr>)
       \<or> (T \<notin> dom (known_tables s) \<and> r = Inr () \<and> find_table (conn s) T \<noteq> None
           \<and> s' = s\<lparr>known_tables := (known_tables s)(T \<mapsto> {})\<rparr>)
       \<or> (T \<notin> dom (known_tables s) \<and> r = Inr () \<and> find_table (conn s) T = None
           \<and> s' = s\<lparr>known_tables := (known_tables s)(T \<mapsto> {}),
                     conn := (conn s)(fold_case T \<mapsto>
                        \<lparr>cols = (''row__id'', PrimaryKey) #
                                 (if truthy p then [(the p @ ''_id'', Declared INTEGER)] else []),
                         rows = [], seq = 0\<rparr>)\<rparr>)"
proof (cases "T \<in> dom (known_tables s)")
  case True
  with assms show ?thesis by (auto simp: register_table_def)
next
  case False
  let ?cs = "(''row__id'', PrimaryKey) #
               (if truthy p then [(the p @ ''_id'', Declared INTEGER)] else [])"
  show ?thesis
  proof (cases "exec_create_table (conn s) T ?cs")
    case (Inl e)
    with False assms show ?thesis by (auto simp: register_table_def)
  next
    case (Inr d)
    from create_table_result[OF Inr] Inr False assms show ?thesis
      by (auto simp: register_table_def)
  qed
qed

lemma schema_le_register: "register_table s T p = (r, s') \<Longrightarrow> schema_le s s'"
  by (drule register_table_cases) (auto simp: schema_le_def find_table_def split: if_splits)

lemma schema_le_add_column:
  "exec_add_column (conn s) t c ty = Inr d \<Longrightarrow> known_tables s t = Some known
   \<Longrightarrow> schema_le s (s\<lparr>conn := d, known_tables := (known_tables s)(t \<mapsto> insert c known)\<rparr>)"
  by (drule add_column_result) (auto simp: schema_le_def find_table_def split: if_splits)

lemma schema_steps_le:
  "create_table_if_not_exists s t0 d p = (r, s') \<Longrightarrow> schema_le s s'"
  "create_fields s t items = (r', s'') \<Longrightarrow> schema_le s s''"
proof -
  show "create_table_if_not_exists s t0 d p = (r, s') \<Longrightarrow> schema_le s s'"
    by (rule create_steps(1)[where R = "\<lambda>T. schema_le"])
       (auto intro: schema_le_trans schema_le_register schema_le_add_column)
  show "create_fields s t items = (r', s'') \<Longrightarrow> schema_le s s''"
    by (rule create_steps(2)[where R = "\<lambda>T. schema_le"])
       (auto intro: schema_le_trans schema_le_register schema_le_add_column)
qed

section \<open>The writer only adds rows\<close>

lemma write_le_refl [simp]: "write_le s s"
  by (simp add: write_le_def)

lemma write_leD_conn:
  "write_le s s' \<Longrightarrow> conn s t = Some tb
   \<Longrightarrow> \<exists>tb'. conn s' t = Some tb' \<and> cols tb' = cols tb \<and> prefix (rows tb) (rows tb')"
  by (simp add: write_le_def)

lemma write_le_trans:
  assumes ab: "write_le a b" and bc: "write_le b c"
  shows "write_le a c"
proof -
  have h3: "\<exists>tb'. conn c t = Some tb' \<and> cols tb' = cols tb \<and> prefix (rows tb) (rows tb')"
    if "conn a t = Some tb" for t tb
  proof -
    from write_leD_conn[OF ab that] obtain t1 where t1: "conn b t = Some t1"
      "cols t1 = cols tb" "prefix (rows tb) (rows t1)" by blast
    from write_leD_conn[OF bc t1(1)] obtain t2 where t2: "conn c t = Some t2"
      "cols t2 = cols t1" "prefix (rows t1) (rows t2)" by blast
    from t1 t2 have "prefix (rows tb) (rows t2)" by (meson prefix_order.trans)
    with t1 t2 show ?thesis by simp
  qed
  have h4: "conn c t = None" if "conn a t = None" for t
    using ab bc that by (simp add: write_le_def)
  have h1: "root_table c = root_table a" "known_tables c = known_tables a"
    using ab bc by (simp_all add: write_le_def)
  show ?thesis
    unfolding write_le_def using h1 h3 h4 by blast
qed

lemma write_le_insert:
  "exec_insert (conn s) T rw = Inr (d, rid) \<Longrightarrow> write_le s (s\<lparr>conn := d\<rparr>)"
  by (drule insert_result) (auto simp: write_le_def find_table_def split: if_splits)

lemma write_steps_le:
  "insert_data s t0 d pid = (r, s') \<Longrightarrow> write_le s s'"
  "insert_nested s t nd rid = (r', s'') \<Longrightarrow> write_le s s''"
  "insert_items s nt xs rid' = (r'', s''') \<Longrightarrow> write_le s s'''"
proof -
  show "insert_data s t0 d pid = (r, s') \<Longrightarrow> write_le s s'"
    by (rule insert_steps(1)[where R = "\<lambda>T. write_le"])
       (auto intro: write_le_trans write_le_insert)
  show "insert_nested s t nd rid = (r', s'') \<Longrightarrow> write_le s s''"
    by (rule insert_steps(2)[where R = "\<lambda>T. write_le"])
       (auto intro: write_le_trans write_le_insert)
  show "insert_items s nt xs rid' = (r'', s''') \<Longrightarrow> write_le s s'''"
    by (rule insert_steps(3)[where R = "\<lambda>T. write_le"])
       (auto intro: write_le_trans write_le_insert)
qed

section \<open>A call touches its own table and the tables below it\<close>

lemma confined_refl [simp]: "confined T s s"
  by (simp add: confined_def)

lemma confined_trans: "confined T a b \<Longrightarrow> confined T b c \<Longrightarrow> confined T a c"
  by (simp add: confined_def)

lemma confined_child:
  assumes "clean T" and "confined (sanitize_name (T @ ''__'' @ c)) s s'"
  shows "confined T s s'"
proof -
  have n: "sanitize_name (T @ ''__'' @ c) = T @ ''__'' @ map sanitize_char c"
    using sanitize_name_path[of T c] assms(1) by (simp add: clean_def)
  show ?thesis
    using assms(2) unfolding n confined_def
    by (meson below_child path_below_child)
qed

lemma confined_register: "register_table s T p = (r, s') \<Longrightarrow> confined T s s'"
  by (drule register_table_cases) (auto simp: confined_def)

lemma confined_add_column:
  "exec_add_column (conn s) T c ty = Inr d
   \<Longrightarrow> confined T s (s\<lparr>conn := d, known_tables := (known_tables s)(T \<mapsto> insert c K)\<rparr>)"
  by (drule add_column_result) (auto simp: confined_def)

lemma confined_insert:
  "exec_insert (conn s) T rw = Inr (d, rid) \<Longrightarrow> confined T s (s\<lparr>conn := d\<rparr>)"
  by (drule insert_result) (auto simp: confined_def)

lemma create_confined:
  "create_table_if_not_exists s t0 d p = (r, s') \<Longrightarrow> confined (sanitize_name t0) s s'"
  "create_fields s t items = (r', s'') \<Longrightarrow> clean t \<Longrightarrow> confined t s s''"
proof -
  let ?R = "\<lambda>T s s'. clean T \<longrightarrow> confined T s s'"
  have 1: "create_table_if_not_exists s t0 d p = (r, s') \<Longrightarrow> ?R (sanitize_name t0) s s'"
    by (rule create_steps(1)[where R = ?R])
       (auto intro: confined_trans confined_register confined_add_column confined_child)
  have 2: "create_fields s t items = (r', s'') \<Longrightarrow> ?R t s s''"
    by (rule create_steps(2)[where R = ?R])
       (auto intro: confined_trans confined_register confined_add_column confined_child)
  from 1 show "create_table_if_not_exists s t0 d p = (r, s') \<Longrightarrow> confined (sanitize_name t0) s s'"
    by simp
  from 2 show "create_fields s t items = (r', s'') \<Longrightarrow> clean t \<Longrightarrow> confined t s s''"
    by simp
qed

lemma insert_confined:
  "insert_data s t0 d pid = (r, s') \<Longrightarrow> confined (sanitize_name t0) s s'"
  "insert_nested s t nd rid = (r', s'') \<Longrightarrow> clean t \<Longrightarrow> confined t s s''"
  "insert_items s nt xs rid' = (r'', s''') \<Longrightarrow> confined (sanitize_name nt) s s'''"
proof -
  let ?R = "\<lambda>T s s'. clean T \<longrightarrow> confined T s s'"
  have 1: "insert_data s t0 d pid = (r, s') \<Longrightarrow> ?R (sanitize_name t0) s s'"
    by (rule insert_steps(1)[where R = ?R])
       (auto intro: confined_trans confined_insert confined_child)
  have 2: "insert_nested s t nd rid = (r', s'') \<Longrightarrow> ?R t s s''"
    by (rule insert_steps(2)[where R = ?R])
       (auto intro: confined_trans confined_insert confined_child)
  have 3: "insert_items s nt xs rid' = (r'', s''') \<Longrightarrow> ?R (sanitize_name nt) s s'''"
    by (rule insert_steps(3)[where R = ?R])
       (auto intro: confined_trans confined_insert confined_child)
  from 1 show "insert_data s t0 d pid = (r, s') \<Longrightarrow> confined (sanitize_name t0) s s'" by simp
  from 2 show "insert_nested s t nd rid = (r', s'') \<Longrightarrow> clean t \<Longrightarrow> confined t s s''" by simp
  from 3 show "insert_items s nt xs rid' = (r'', s''') \<Longrightarrow> confined (sanitize_name nt) s s'''"
    by simp
qed

section \<open>Values on which the writer raises\<close>

lemma insert_items_raises:
  "x \<in> set xs \<Longrightarrow> always_raises x \<Longrightarrow> isl (fst (insert_items s nt xs rid))"
proof (induction xs arbitrary: s)
  case Nil
  then show ?case by simp
next
  case (Cons y ys)
  show ?case
  proof (cases "insert_data s nt y (Some rid)")
    case (Pair r s')
    show ?thesis
    proof (cases r)
      case (Inl e)
      with Pair show ?thesis by simp
    next
      case (Inr i)
      have "y \<noteq> x"
      proof
        assume "y = x"
        with Cons.prems(2) have "isl (fst (insert_data s nt y (Some rid)))"
          by (simp add: always_raises_def)
        with Pair Inr show False by simp
      qed
      with Cons.prems have "x \<in> set ys" by simp
      from Cons.IH[OF this Cons.prems(2)] Pair Inr show ?thesis by simp
    qed
  qed
qed

lemma insert_nested_raises:
  "(c, w) \<in> set nd \<Longrightarrow> raising_field w \<Longrightarrow> isl (fst (insert_nested s T nd rid))"
proof (induction nd arbitrary: s)
  case Nil
  then show ?case by simp
next
  case (Cons kv rest)
  obtain k v where kv: "kv = (k, v)" by (cases kv)
  have step: "isl (fst (insert_nested s' T rest rid))" if "(c, w) \<in> set rest" for s'
    using Cons.IH[OF that Cons.prems(2)] .
  show ?case
  proof (cases "(c, w) = (k, v)")
    case True
    then have w: "w = v" by simp
    show ?thesis
    proof (cases "is_dict v")
      case True
      with Cons.prems(2) w have "isl (fst (insert_data s (T @ ''__'' @ k) v (Some rid)))"
        by (auto simp: raising_field_def always_raises_def)
      with True kv show ?thesis
        by (cases "insert_data s (T @ ''__'' @ k) v (Some rid)") (auto simp: Let_def split: sum.splits)
    next
      case False
      with Cons.prems(2) w obtain x where x: "x \<in> set (elems v)" "always_raises x"
        and l: "is_list v" "elems v \<noteq> []" "is_dict (hd (elems v))"
        by (auto simp: raising_field_def)
      from insert_items_raises[OF x] have "isl (fst (insert_items s (T @ ''__'' @ k) (elems v) rid))" .
      with False l kv show ?thesis
        by (cases "insert_items s (T @ ''__'' @ k) (elems v) rid") (auto simp: Let_def split: sum.splits)
    qed
  next
    case False
    with Cons.prems(1) kv have mem: "(c, w) \<in> set rest" by auto
    show ?thesis
      using step[OF mem] kv
      by (auto simp: Let_def split: prod.splits sum.splits)
  qed
qed

lemma insert_data_raises:
  assumes "(c, w) \<in> set (snd (split_fields items [] []))" and "raising_field w"
  shows "isl (fst (insert_data s t (JObj items) pid))"
proof (cases "exec_insert (conn s) (sanitize_name t) (row_of (JObj items) (sanitize_name t) pid)")
  case (Inl e)
  then show ?thesis by (simp add: insert_data_obj)
next
  case (Inr p)
  obtain d rid where p: "p = (d, rid)" by (cases p)
  have "isl (fst (insert_nested (s\<lparr>conn := d\<rparr>) (sanitize_name t)
                    (snd (split_fields items [] [])) rid))"
    using insert_nested_raises[OF assms] .
  with Inr p show ?thesis
    by (cases "insert_nested (s\<lparr>conn := d\<rparr>) (sanitize_name t)
                  (snd (split_fields items [] [])) rid")
       (auto simp: insert_data_obj split: sum.splits)
qed

lemma write_reaches_raises:
  "write_reaches d v \<Longrightarrow> \<not> is_dict v \<Longrightarrow> always_raises d"
proof (induction rule: write_reaches.induct)
  case (reaches_self d)
  then show ?case by (simp add: always_raises_def non_dict_raises)
next
  case (reaches_object c w items v)
  then have "raising_field w" by (simp add: raising_field_def)
  with reaches_object.hyps(1) show ?case
    unfolding always_raises_def by (blast intro: insert_data_raises)
next
  case (reaches_element c w items x v)
  then have "raising_field w" by (auto simp: raising_field_def)
  with reaches_element.hyps(1) show ?case
    unfolding always_raises_def by (blast intro: insert_data_raises)
qed

lemma write_reaches_trans:
  "write_reaches a b \<Longrightarrow> write_reaches b c \<Longrightarrow> write_reaches a c"
  by (induction rule: write_reaches.induct) (auto intro: write_reaches.intros)

section \<open>A schema operation that succeeds keeps the registry consistent\<close>

lemma find_table_schema_le:
  "schema_le s s' \<Longrightarrow> find_table (conn s) t \<noteq> None \<Longrightarrow> find_table (conn s') t \<noteq> None"
  unfolding find_table_def using schema_leD_conn by fastforce

lemma consistent_register:
  "register_table s T p = (r, s') \<Longrightarrow> registry_consistent s \<Longrightarrow> \<not> isl r
   \<Longrightarrow> registry_consistent s'"
  by (drule register_table_cases)
     (auto simp: registry_consistent_def find_table_def dom_def split: if_splits)

lemma consistent_add_column:
  "exec_add_column (conn s) T c ty = Inr d \<Longrightarrow> known_tables s T = Some K
   \<Longrightarrow> registry_consistent s
   \<Longrightarrow> registry_consistent (s\<lparr>conn := d, known_tables := (known_tables s)(T \<mapsto> insert c K)\<rparr>)"
  by (drule add_column_result)
     (auto simp: registry_consistent_def find_table_def dom_def split: if_splits)

lemma schema_success_consistent:
  "create_table_if_not_exists s t0 d p = (Inr u, s') \<Longrightarrow> registry_consistent s
   \<Longrightarrow> registry_consistent s'"
  "create_fields s t items = (Inr u', s'') \<Longrightarrow> registry_consistent s
   \<Longrightarrow> registry_consistent s''"
proof -
  let ?R = "\<lambda>(T :: string) s f s'. registry_consistent s \<and> \<not> f \<longrightarrow> registry_consistent s'"
  have 1: "create_table_if_not_exists s t0 d p = (r, s') \<Longrightarrow> ?R (sanitize_name t0) s (isl r) s'"
    for r
    by (rule create_outcomes(1)[where R = ?R])
       (auto intro: consistent_register consistent_add_column)
  have 2: "create_fields s t items = (r', s'') \<Longrightarrow> ?R t s (isl r') s''" for r'
    by (rule create_outcomes(2)[where R = ?R])
       (auto intro: consistent_register consistent_add_column)
  from 1[of "Inr u"]
  show "create_table_if_not_exists s t0 d p = (Inr u, s') \<Longrightarrow> registry_consistent s
        \<Longrightarrow> registry_consistent s'" by simp
  from 2[of "Inr u'"]
  show "create_fields s t items = (Inr u', s'') \<Longrightarrow> registry_consistent s
        \<Longrightarrow> registry_consistent s''" by simp
qed

section \<open>Processing a document again changes nothing\<close>

lemma register_known: "T \<in> dom (known_tables s) \<Longrightarrow> register_table s T p = (Inr (), s)"
  by (simp add: register_table_def)

lemma register_success_known:
  "register_table s T p = (Inr u, s1) \<Longrightarrow> T \<in> dom (known_tables s1)"
  by (drule register_table_cases) auto

lemma has_column_prefix: "has_column tb c \<Longrightarrow> prefix (cols tb) (cols tb') \<Longrightarrow> has_column tb' c"
  by (auto simp: has_column_def prefix_def)

lemma dup_persists:
  assumes "exec_add_column (conn s) t c ty = Inl e" "is_duplicate_column e" "schema_le s s2"
  shows "\<exists>e'. exec_add_column (conn s2) t c ty = Inl e' \<and> (is_duplicate_column e' \<or> \<not> roomy s2)"
proof -
  from add_column_duplicate[OF assms(1,2)] obtain tb where
    tb: "find_table (conn s) t = Some tb" "valid_identifier t" "\<not> internal_name t"
        "c = [] \<or> valid_identifier c" "has_column tb (if c = [] then type_name ty else c)"
    by blast
  from schema_leD_conn[OF assms(3), of "fold_case t" tb] tb(1) obtain tb' where
    tb': "find_table (conn s2) t = Some tb'" "prefix (cols tb) (cols tb')"
    by (auto simp: find_table_def)
  from has_column_prefix[OF tb(5) tb'(2)]
  have hc: "has_column tb' (if c = [] then type_name ty else c)" .
  show ?thesis
  proof (cases "2000 \<le> length (cols tb')")
    case True
    with tb'(1) have "\<not> roomy s2"
      unfolding roomy_def find_table_def by (metis not_le)
    moreover from True tb tb' have "\<exists>e'. exec_add_column (conn s2) t c ty = Inl e'"
      by (auto simp: exec_add_column_def)
    ultimately show ?thesis by blast
  next
    case False
    with tb tb' hc show ?thesis
      by (auto simp: exec_add_column_def Let_def)
  qed
qed

lemma head_known:
  "known_tables s t = Some K \<Longrightarrow> sanitize_name k \<in> K
   \<Longrightarrow> create_fields s t ((k, v) # rest) = create_fields s t rest"
  by simp

lemma settled_fail: "\<not> roomy s \<Longrightarrow> settled s (Inl e, s)"
  by (simp add: settled_def)

lemma settledD: "settled s X \<Longrightarrow> X = (Inr (), s) \<or> (\<not> roomy s \<and> (\<exists>e. X = (Inl e, s)))"
  by (cases X; cases "fst X") (auto simp: settled_def)

lemma head_dup:
  assumes "known_tables s t = Some K" "get_sqlite_type v \<noteq> REFERENCE"
    and "exec_add_column (conn s) t (sanitize_name k) (get_sqlite_type v) = Inl e"
    and "is_duplicate_column e \<or> \<not> roomy s"
    and "settled s (create_fields s t rest)"
  shows "settled s (create_fields s t ((k, v) # rest))"
proof (cases "sanitize_name k \<in> K")
  case True
  with assms(1,5) show ?thesis by (simp add: head_known)
next
  case False
  show ?thesis
  proof (cases "is_duplicate_column e")
    case True
    with False assms show ?thesis by (simp add: Let_def)
  next
    case nd: False
    with assms(4) have "\<not> roomy s" by simp
    moreover from False nd assms(1-3)
    have "create_fields s t ((k, v) # rest) = (Inl e, s)" by (simp add: Let_def)
    ultimately show ?thesis by (simp add: settled_fail)
  qed
qed

lemma head_nested:
  assumes "known_tables s t = Some K" "get_sqlite_type v = REFERENCE"
    and "is_dict v \<longrightarrow>
         settled s (create_table_if_not_exists s (t @ ''__'' @ sanitize_name k) v (Some t))"
    and "\<not> is_dict v \<longrightarrow> is_list v \<and> elems v \<noteq> [] \<and> is_dict (hd (elems v)) \<longrightarrow>
         settled s (create_table_if_not_exists s (t @ ''__'' @ sanitize_name k)
                      (hd (elems v)) (Some t))"
    and "settled s (create_fields s t rest)"
  shows "settled s (create_fields s t ((k, v) # rest))"
proof (cases "sanitize_name k \<in> K")
  case True
  with assms(1,5) show ?thesis by (simp add: head_known)
next
  case notin: False
  show ?thesis
  proof (cases "is_dict v")
    case True
    from settledD[OF assms(3)[rule_format, OF True]] show ?thesis
    proof
      assume "create_table_if_not_exists s (t @ ''__'' @ sanitize_name k) v (Some t) = (Inr (), s)"
      with notin True assms(1,2,5) show ?thesis by (simp add: Let_def)
    next
      assume a: "\<not> roomy s \<and>
        (\<exists>e. create_table_if_not_exists s (t @ ''__'' @ sanitize_name k) v (Some t) = (Inl e, s))"
      then obtain e where
        "create_table_if_not_exists s (t @ ''__'' @ sanitize_name k) v (Some t) = (Inl e, s)"
        by blast
      with notin True assms(1,2) have "create_fields s t ((k, v) # rest) = (Inl e, s)"
        by (simp add: Let_def)
      with a show ?thesis by (simp add: settled_fail)
    qed
  next
    case nd: False
    show ?thesis
    proof (cases "is_list v \<and> elems v \<noteq> [] \<and> is_dict (hd (elems v))")
      case True
      from settledD[OF assms(4)[rule_format, OF nd True]] show ?thesis
      proof
        assume "create_table_if_not_exists s (t @ ''__'' @ sanitize_name k) (hd (elems v)) (Some t)
                  = (Inr (), s)"
        with notin nd True assms(1,2,5) show ?thesis by (simp add: Let_def)
      next
        assume a: "\<not> roomy s \<and>
          (\<exists>e. create_table_if_not_exists s (t @ ''__'' @ sanitize_name k) (hd (elems v)) (Some t)
                 = (Inl e, s))"
        then obtain e where
          "create_table_if_not_exists s (t @ ''__'' @ sanitize_name k) (hd (elems v)) (Some t)
             = (Inl e, s)"
          by blast
        with notin nd True assms(1,2) have "create_fields s t ((k, v) # rest) = (Inl e, s)"
          by (simp add: Let_def)
        with a show ?thesis by (simp add: settled_fail)
      qed
    next
      case False
      with notin nd assms(1,2,5) show ?thesis by (auto simp: Let_def)
    qed
  qed
qed

lemma schema_settled:
  "create_table_if_not_exists s t0 d p = (Inr u, s') \<Longrightarrow> schema_le s' s2
   \<Longrightarrow> settled s2 (create_table_if_not_exists s2 t0 d p)"
  "create_fields s t items = (Inr u', s'') \<Longrightarrow> schema_le s'' s2
   \<Longrightarrow> settled s2 (create_fields s2 t items)"
proof (induction s t0 d p and s t items arbitrary: u s' s2 and u' s'' s2
       rule: create_table_if_not_exists_create_fields.induct)
  case (1 s table_name0 data parent_table)
  let ?T = "sanitize_name table_name0"
  obtain r1 s1 where rg: "register_table s ?T parent_table = (r1, s1)"
    by (cases "register_table s ?T parent_table")
  from "1.prems"(1) rg obtain b where Inr: "r1 = Inr b"
    by (cases r1) (auto simp: create_table_if_not_exists.simps Let_def)
  from "1.prems"(1) rg Inr obtain items where JObj: "data = JObj items"
    by (cases data) (auto simp: create_table_if_not_exists.simps Let_def)
  with "1.prems" rg Inr have run: "create_fields s1 ?T items = (Inr u, s')"
    by (simp add: create_table_if_not_exists.simps Let_def)
  from "1.IH"[OF refl rg[symmetric] Inr JObj run "1.prems"(2)]
  have ok: "settled s2 (create_fields s2 ?T items)" .
  from register_success_known[OF rg[unfolded Inr]]
  obtain K where "known_tables s1 ?T = Some K" by blast
  moreover have "schema_le s1 s2"
    using schema_steps_le(2)[OF run] "1.prems"(2) by (rule schema_le_trans)
  ultimately have "?T \<in> dom (known_tables s2)"
    using schema_leD_known by blast
  with ok JObj show ?case
    by (simp add: create_table_obj register_known)
next
  case (2 s table_name)
  then show ?case by (simp add: settled_def)
next
  case (3 s table_name key "value" rest)
  let ?c = "sanitize_name key"
  let ?child = "table_name @ ''__'' @ ?c"
  from "3.prems"(1) obtain known where Some: "known_tables s table_name = Some known"
    by (cases "known_tables s table_name") auto
  have le02: "schema_le s s2"
    using schema_steps_le(2)[OF "3.prems"(1)] "3.prems"(2) by (rule schema_le_trans)
  from schema_leD_known[OF le02 Some] obtain K2 where
    K2: "known_tables s2 table_name = Some K2" "known \<subseteq> K2" by blast
  show ?case
  proof (cases "?c \<in> known")
    case True
    with Some "3.prems" have "create_fields s table_name rest = (Inr u', s'')" by simp
    from "3.IH"(8)[OF refl Some _ this "3.prems"(2)] True
    have "settled s2 (create_fields s2 table_name rest)" by simp
    moreover from True K2 have "?c \<in> K2" by auto
    ultimately show ?thesis using K2 by (simp add: head_known)
  next
    case notin: False
    show ?thesis
    proof (cases "get_sqlite_type value = REFERENCE")
      case ref: True
      show ?thesis
      proof (cases "is_dict value")
        case True
        obtain r1 s1 where c1: "create_table_if_not_exists s ?child value (Some table_name) = (r1, s1)"
          by (cases "create_table_if_not_exists s ?child value (Some table_name)")
        from c1 Some notin ref True "3.prems"(1) obtain b where Inr: "r1 = Inr b"
          by (cases r1) (auto simp: Let_def)
        with c1 Some notin ref True "3.prems" have run: "create_fields s1 table_name rest = (Inr u', s'')"
          by (simp add: Let_def)
        have le12: "schema_le s1 s2"
          using schema_steps_le(2)[OF run] "3.prems"(2) by (rule schema_le_trans)
        from "3.IH"(1)[OF refl Some notin refl ref True c1[unfolded Inr] le12]
        have h: "settled s2 (create_table_if_not_exists s2 ?child value (Some table_name))" .
        from "3.IH"(2)[OF refl Some notin refl ref True c1[symmetric] Inr run "3.prems"(2)]
        have r: "settled s2 (create_fields s2 table_name rest)" .
        from head_nested[OF K2(1) ref _ _ r, of key] h True show ?thesis by simp
      next
        case nd: False
        show ?thesis
        proof (cases "is_list value \<and> elems value \<noteq> [] \<and> is_dict (hd (elems value))")
          case True
          obtain r1 s1 where c1:
            "create_table_if_not_exists s ?child (hd (elems value)) (Some table_name) = (r1, s1)"
            by (cases "create_table_if_not_exists s ?child (hd (elems value)) (Some table_name)")
          from c1 Some notin ref nd True "3.prems"(1) obtain b where Inr: "r1 = Inr b"
            by (cases r1) (auto simp: Let_def)
          with c1 Some notin ref nd True "3.prems"
          have run: "create_fields s1 table_name rest = (Inr u', s'')"
            by (simp add: Let_def)
          have le12: "schema_le s1 s2"
            using schema_steps_le(2)[OF run] "3.prems"(2) by (rule schema_le_trans)
          from "3.IH"(3)[OF refl Some notin refl ref nd True c1[unfolded Inr] le12]
          have h: "settled s2 (create_table_if_not_exists s2 ?child (hd (elems value)) (Some table_name))" .
          from "3.IH"(4)[OF refl Some notin refl ref nd True c1[symmetric] Inr run "3.prems"(2)]
          have r: "settled s2 (create_fields s2 table_name rest)" .
          from head_nested[OF K2(1) ref _ _ r, of key] h nd show ?thesis by simp
        next
          case False
          with Some notin ref nd "3.prems" have run: "create_fields s table_name rest = (Inr u', s'')"
            by (auto simp: Let_def)
          from "3.IH"(5)[OF refl Some notin refl ref nd False run "3.prems"(2)]
          have r: "settled s2 (create_fields s2 table_name rest)" .
          from head_nested[OF K2(1) ref _ _ r, of key] nd False show ?thesis by simp
        qed
      qed
    next
      case scalar: False
      show ?thesis
      proof (cases "exec_add_column (conn s) table_name ?c (get_sqlite_type value)")
        case (Inr d)
        let ?s2 = "s\<lparr>conn := d, known_tables := (known_tables s)(table_name \<mapsto> insert ?c known)\<rparr>"
        from Inr Some notin scalar "3.prems" have run: "create_fields ?s2 table_name rest = (Inr u', s'')"
          by (simp add: Let_def)
        from "3.IH"(7)[OF refl Some notin refl scalar Inr run "3.prems"(2)]
        have r: "settled s2 (create_fields s2 table_name rest)" .
        have "schema_le ?s2 s2"
          using schema_steps_le(2)[OF run] "3.prems"(2) by (rule schema_le_trans)
        from schema_leD_known[OF this, of table_name "insert ?c known"] K2
        have "?c \<in> K2" by auto
        with K2 r show ?thesis by (simp add: head_known)
      next
        case (Inl e)
        from Inl Some notin scalar "3.prems"(1) have dup: "is_duplicate_column e"
          by (auto simp: Let_def split: if_splits)
        with Inl Some notin scalar "3.prems" have run: "create_fields s table_name rest = (Inr u', s'')"
          by (simp add: Let_def)
        from "3.IH"(6)[OF refl Some notin refl scalar Inl dup run "3.prems"(2)]
        have r: "settled s2 (create_fields s2 table_name rest)" .
        from dup_persists[OF Inl dup le02] obtain e' where
          e': "exec_add_column (conn s2) table_name ?c (get_sqlite_type value) = Inl e'"
          "is_duplicate_column e' \<or> \<not> roomy s2" by blast
        from head_dup[OF K2(1) scalar e' r] show ?thesis .
      qed
    qed
  qed
qed

section \<open>Tables left behind by the schema pass\<close>

declare schema_covers.simps [simp del]

lemma schema_covered:
  "create_table_if_not_exists s t0 d p = (Inr u, s') \<Longrightarrow> schema_le s' s2
   \<Longrightarrow> registry_consistent s2 \<Longrightarrow> schema_covers s2 t0 d"
  "create_fields s t items = (Inr u', s'') \<Longrightarrow> schema_le s'' s2
   \<Longrightarrow> registry_consistent s2 \<Longrightarrow> schema_covers_fields s2 t items"
proof (induction s t0 d p and s t items arbitrary: u s' s2 and u' s'' s2
       rule: create_table_if_not_exists_create_fields.induct)
  case (1 s table_name0 data parent_table)
  let ?T = "sanitize_name table_name0"
  obtain r1 s1 where rg: "register_table s ?T parent_table = (r1, s1)"
    by (cases "register_table s ?T parent_table")
  from "1.prems"(1) rg obtain b where Inr: "r1 = Inr b"
    by (cases r1) (auto simp: create_table_if_not_exists.simps Let_def)
  from "1.prems"(1) rg Inr obtain items where JObj: "data = JObj items"
    by (cases data) (auto simp: create_table_if_not_exists.simps Let_def)
  with "1.prems" rg Inr have run: "create_fields s1 ?T items = (Inr u, s')"
    by (simp add: create_table_if_not_exists.simps Let_def)
  from "1.IH"[OF refl rg[symmetric] Inr JObj run "1.prems"(2,3)]
  have ok: "schema_covers_fields s2 ?T items" .
  from register_success_known[OF rg[unfolded Inr]]
  obtain K where "known_tables s1 ?T = Some K" by blast
  moreover have "schema_le s1 s2"
    using schema_steps_le(2)[OF run] "1.prems"(2) by (rule schema_le_trans)
  ultimately have k: "?T \<in> dom (known_tables s2)"
    using schema_leD_known by blast
  with "1.prems"(3) have "find_table (conn s2) ?T \<noteq> None" by (auto simp: registry_consistent_def)
  with k ok JObj show ?case
    by (simp add: schema_covers.simps Let_def)
next
  case (2 s table_name)
  then show ?case by simp
next
  case (3 s table_name key "value" rest)
  let ?c = "sanitize_name key"
  let ?child = "table_name @ ''__'' @ ?c"
  from "3.prems"(1) obtain known where Some: "known_tables s table_name = Some known"
    by (cases "known_tables s table_name") auto
  have le02: "schema_le s s2"
    using schema_steps_le(2)[OF "3.prems"(1)] "3.prems"(2) by (rule schema_le_trans)
  from schema_leD_known[OF le02 Some] obtain K2 where
    K2: "known_tables s2 table_name = Some K2" "known \<subseteq> K2" by blast
  show ?case
  proof (cases "?c \<in> known")
    case True
    with Some "3.prems" have "create_fields s table_name rest = (Inr u', s'')" by simp
    from "3.IH"(8)[OF refl Some _ this "3.prems"(2,3)] True
    have "schema_covers_fields s2 table_name rest" by simp
    moreover from True K2 have "?c \<in> K2" by auto
    ultimately show ?thesis using K2 by (simp add: Let_def)
  next
    case notin: False
    show ?thesis
    proof (cases "get_sqlite_type value = REFERENCE")
      case ref: True
      show ?thesis
      proof (cases "is_dict value")
        case True
        obtain r1 s1 where c1: "create_table_if_not_exists s ?child value (Some table_name) = (r1, s1)"
          by (cases "create_table_if_not_exists s ?child value (Some table_name)")
        from c1 Some notin ref True "3.prems"(1) obtain b where Inr: "r1 = Inr b"
          by (cases r1) (auto simp: Let_def)
        with c1 Some notin ref True "3.prems" have run: "create_fields s1 table_name rest = (Inr u', s'')"
          by (simp add: Let_def)
        have le12: "schema_le s1 s2"
          using schema_steps_le(2)[OF run] "3.prems"(2) by (rule schema_le_trans)
        from "3.IH"(1)[OF refl Some notin refl ref True c1[unfolded Inr] le12 "3.prems"(3)]
        have h: "schema_covers s2 ?child value" .
        from "3.IH"(2)[OF refl Some notin refl ref True c1[symmetric] Inr run "3.prems"(2,3)]
        have r: "schema_covers_fields s2 table_name rest" .
        from h r K2 True show ?thesis by (simp add: Let_def)
      next
        case nd: False
        show ?thesis
        proof (cases "is_list value \<and> elems value \<noteq> [] \<and> is_dict (hd (elems value))")
          case True
          obtain r1 s1 where c1:
            "create_table_if_not_exists s ?child (hd (elems value)) (Some table_name) = (r1, s1)"
            by (cases "create_table_if_not_exists s ?child (hd (elems value)) (Some table_name)")
          from c1 Some notin ref nd True "3.prems"(1) obtain b where Inr: "r1 = Inr b"
            by (cases r1) (auto simp: Let_def)
          with c1 Some notin ref nd True "3.prems"
          have run: "create_fields s1 table_name rest = (Inr u', s'')"
            by (simp add: Let_def)
          have le12: "schema_le s1 s2"
            using schema_steps_le(2)[OF run] "3.prems"(2) by (rule schema_le_trans)
          from "3.IH"(3)[OF refl Some notin refl ref nd True c1[unfolded Inr] le12 "3.prems"(3)]
          have h: "schema_covers s2 ?child (hd (elems value))" .
          from "3.IH"(4)[OF refl Some notin refl ref nd True c1[symmetric] Inr run "3.prems"(2,3)]
          have r: "schema_covers_fields s2 table_name rest" .
          from h r K2 nd True show ?thesis by (simp add: Let_def)
        next
          case False
          with Some notin ref nd "3.prems" have run: "create_fields s table_name rest = (Inr u', s'')"
            by (auto simp: Let_def)
          from "3.IH"(5)[OF refl Some notin refl ref nd False run "3.prems"(2,3)]
          have r: "schema_covers_fields s2 table_name rest" .
          from r K2 nd False show ?thesis by (auto simp: Let_def)
        qed
      qed
    next
      case scalar: False
      then have nodict: "\<not> is_dict value" "\<not> is_list value"
        by (cases "value"; simp add: get_sqlite_type_def)+
      show ?thesis
      proof (cases "exec_add_column (conn s) table_name ?c (get_sqlite_type value)")
        case (Inr d)
        let ?s2 = "s\<lparr>conn := d, known_tables := (known_tables s)(table_name \<mapsto> insert ?c known)\<rparr>"
        from Inr Some notin scalar "3.prems" have run: "create_fields ?s2 table_name rest = (Inr u', s'')"
          by (simp add: Let_def)
        from "3.IH"(7)[OF refl Some notin refl scalar Inr run "3.prems"(2,3)]
        have r: "schema_covers_fields s2 table_name rest" .
        from r K2 nodict show ?thesis by (simp add: Let_def)
      next
        case (Inl e)
        from Inl Some notin scalar "3.prems"(1) have dup: "is_duplicate_column e"
          by (auto simp: Let_def split: if_splits)
        with Inl Some notin scalar "3.prems" have run: "create_fields s table_name rest = (Inr u', s'')"
          by (simp add: Let_def)
        from "3.IH"(6)[OF refl Some notin refl scalar Inl dup run "3.prems"(2,3)]
        have r: "schema_covers_fields s2 table_name rest" .
        from r K2 nodict show ?thesis by (simp add: Let_def)
      qed
    qed
  qed
qed

lemma json_schema_pass_le:
  "json_schema_pass s docs = (r, s') \<Longrightarrow> schema_le s s'"
proof (induction docs arbitrary: s)
  case Nil
  then show ?case by simp
next
  case (Cons d docs)
  obtain r1 s1 where c1: "create_table_if_not_exists s (root_table s) d None = (r1, s1)"
    by (cases "create_table_if_not_exists s (root_table s) d None")
  from schema_steps_le(1)[OF c1] have le1: "schema_le s s1" .
  show ?case
  proof (cases r1)
    case (Inl e)
    with c1 Cons.prems le1 show ?thesis by simp
  next
    case (Inr b)
    with c1 Cons.prems have "json_schema_pass s1 docs = (r, s')" by simp
    from Cons.IH[OF this] le1 show ?thesis by (blast intro: schema_le_trans)
  qed
qed

lemma json_schema_pass_covers:
  "json_schema_pass s docs = (Inr u, s') \<Longrightarrow> registry_consistent s
   \<Longrightarrow> registry_consistent s' \<and> (\<forall>d \<in> set docs. schema_covers s' (root_table s) d)"
proof (induction docs arbitrary: s)
  case Nil
  then show ?case by simp
next
  case (Cons d docs)
  obtain r1 s1 where c1: "create_table_if_not_exists s (root_table s) d None = (r1, s1)"
    by (cases "create_table_if_not_exists s (root_table s) d None")
  from c1 Cons.prems(1) obtain b where Inr: "r1 = Inr b" by (cases r1) auto
  with c1 Cons.prems have run: "json_schema_pass s1 docs = (Inr u, s')" by simp
  from schema_success_consistent(1)[OF c1[unfolded Inr] Cons.prems(2)]
  have cons1: "registry_consistent s1" .
  from Cons.IH[OF run cons1] have cons': "registry_consistent s'"
    and rest: "\<forall>d \<in> set docs. schema_covers s' (root_table s1) d" by simp_all
  have root: "root_table s1 = root_table s"
    using schema_steps_le(1)[OF c1] by (rule schema_leD_root)
  from schema_covered(1)[OF c1[unfolded Inr] json_schema_pass_le[OF run] cons']
  have "schema_covers s' (root_table s) d" .
  with rest root cons' show ?case by simp
qed

lemma schema_le_table_rows: "schema_le s s' \<Longrightarrow> table_rows s' t = table_rows s t"
proof -
  assume le: "schema_le s s'"
  show ?thesis
  proof (cases "conn s (fold_case t)")
    case None
    then show ?thesis using schema_leD_new[OF le None]
      by (cases "conn s' (fold_case t)") (auto simp: table_rows_def find_table_def)
  next
    case (Some tb)
    from schema_leD_conn[OF le Some] Some show ?thesis
      by (auto simp: table_rows_def find_table_def)
  qed
qed

lemma new_converter_consistent: "registry_consistent (new_converter d root)"
  by (simp add: registry_consistent_def new_converter_def)

section \<open>Rows that a failed write leaves behind\<close>

lemma insert_items_stops:
  "\<not> is_dict x
   \<Longrightarrow> insert_items s nt (pre @ x # post) rid =
         (case insert_items s nt pre rid of
            (Inl e, s') \<Rightarrow> (Inl e, s')
          | (Inr _, s') \<Rightarrow> (Inl AttributeError, s'))"
proof (induction pre arbitrary: s)
  case Nil
  then show ?case by (simp add: non_dict_raises)
next
  case (Cons y ys)
  show ?case
  proof (cases "insert_data s nt y (Some rid)")
    case (Pair r s1)
    with Cons show ?thesis by (cases r) simp_all
  qed
qed

lemma write_le_table_rows: "write_le s s' \<Longrightarrow> prefix (table_rows s t) (table_rows s' t)"
proof -
  assume le: "write_le s s'"
  show ?thesis
  proof (cases "conn s (fold_case t)")
    case None
    then show ?thesis by (simp add: table_rows_def find_table_def)
  next
    case (Some tb)
    from write_leD_conn[OF le Some] Some show ?thesis
      by (auto simp: table_rows_def find_table_def)
  qed
qed

lemma insert_data_cases:
  assumes "insert_data s t (JObj items) pid = (r, s')"
  shows "(\<exists>e. exec_insert (conn s) (sanitize_name t) (row_of (JObj items) (sanitize_name t) pid) = Inl e
              \<and> r = Inl e \<and> s' = s)
       \<or> (\<exists>d rid r2. exec_insert (conn s) (sanitize_name t) (row_of (JObj items) (sanitize_name t) pid)
                        = Inr (d, rid)
              \<and> insert_nested (s\<lparr>conn := d\<rparr>) (sanitize_name t) (snd (split_fields items [] [])) rid
                  = (r2, s')
              \<and> r = (case r2 of Inl e \<Rightarrow> Inl e | Inr _ \<Rightarrow> Inr rid))"
proof (cases "exec_insert (conn s) (sanitize_name t) (row_of (JObj items) (sanitize_name t) pid)")
  case (Inl e)
  with assms show ?thesis by (simp add: insert_data_obj)
next
  case (Inr pr)
  obtain d rid where pr: "pr = (d, rid)" by (cases pr)
  obtain r2 s2 where n:
    "insert_nested (s\<lparr>conn := d\<rparr>) (sanitize_name t) (snd (split_fields items [] [])) rid = (r2, s2)"
    by (cases "insert_nested (s\<lparr>conn := d\<rparr>) (sanitize_name t) (snd (split_fields items [] [])) rid")
  with assms Inr pr show ?thesis
    by (cases r2) (auto simp: insert_data_obj)
qed

lemma insert_data_success:
  assumes "insert_data s t (JObj items) pid = (Inr rid, s')"
  shows "\<exists>d. exec_insert (conn s) (sanitize_name t) (row_of (JObj items) (sanitize_name t) pid)
               = Inr (d, rid)
             \<and> insert_nested (s\<lparr>conn := d\<rparr>) (sanitize_name t) (snd (split_fields items [] [])) rid
                 = (Inr (), s')"
proof (cases "exec_insert (conn s) (sanitize_name t) (row_of (JObj items) (sanitize_name t) pid)")
  case (Inl e)
  with assms show ?thesis by (simp add: insert_data_obj)
next
  case (Inr pr)
  obtain d rid' where pr: "pr = (d, rid')" by (cases pr)
  obtain r2 s2 where n:
    "insert_nested (s\<lparr>conn := d\<rparr>) (sanitize_name t) (snd (split_fields items [] [])) rid' = (r2, s2)"
    by (cases "insert_nested (s\<lparr>conn := d\<rparr>) (sanitize_name t) (snd (split_fields items [] [])) rid'")
  with assms Inr pr show ?thesis
    by (cases r2) (auto simp: insert_data_obj)
qed

lemma own_row_stays:
  assumes acc: "exec_insert (conn s) (sanitize_name t) (row_of (JObj items) (sanitize_name t) pid)
                  = Inr (d, rid)"
    and run: "insert_data s t (JObj items) pid = (r, s')"
  shows "(rid, row_of (JObj items) (sanitize_name t) pid) \<in> set (table_rows s' (sanitize_name t))"
proof -
  let ?T = "sanitize_name t"
  let ?row = "row_of (JObj items) ?T pid"
  from insert_data_cases[OF run] acc obtain r2 where
    n: "insert_nested (s\<lparr>conn := d\<rparr>) ?T (snd (split_fields items [] [])) rid = (r2, s')"
    by auto
  from insert_result[OF acc] obtain tb where
    tb: "find_table (conn s) ?T = Some tb"
        "d = (conn s)(fold_case ?T \<mapsto> tb\<lparr>rows := rows tb @ [(rid, ?row)], seq := max (seq tb) rid\<rparr>)"
    by blast
  then have "(rid, ?row) \<in> set (table_rows (s\<lparr>conn := d\<rparr>) ?T)"
    by (simp add: table_rows_def find_table_def)
  moreover from write_steps_le(2)[OF n]
  have "prefix (table_rows (s\<lparr>conn := d\<rparr>) ?T) (table_rows s' ?T)"
    by (rule write_le_table_rows)
  ultimately show ?thesis by (auto simp: prefix_def)
qed

lemma skipped_field:
  "\<not> is_dict v \<Longrightarrow> \<not> (is_list v \<and> elems v \<noteq> [] \<and> is_dict (hd (elems v)))
   \<Longrightarrow> insert_nested s T ((c, v) # rest) rid = insert_nested s T rest rid"
  by (auto simp: Let_def)

section \<open>The column of a field first seen with a scalar value\<close>

lemma create_fields_head:
  "\<exists>X. \<forall>rest. create_fields s T ((k, v) # rest) =
          (case X of Inl (e, s1) \<Rightarrow> (Inl e, s1) | Inr s1 \<Rightarrow> create_fields s1 T rest)"
proof (cases "known_tables s T")
  case None
  show ?thesis by (rule exI[of _ "Inl (KeyError T, s)"]) (simp add: None)
next
  case (Some known)
  let ?c = "sanitize_name k"
  let ?child = "T @ ''__'' @ ?c"
  show ?thesis
  proof (cases "?c \<in> known")
    case True
    show ?thesis by (rule exI[of _ "Inr s"]) (simp add: Some True)
  next
    case notin: False
    show ?thesis
    proof (cases "get_sqlite_type v = REFERENCE")
      case ref: True
      show ?thesis
      proof (cases "is_dict v")
        case True
        obtain r1 s1 where c1: "create_table_if_not_exists s ?child v (Some T) = (r1, s1)"
          by (cases "create_table_if_not_exists s ?child v (Some T)")
        show ?thesis
        proof (cases r1)
          case (Inl e)
          show ?thesis
            by (rule exI[of _ "Inl (e, s1)"]) (use Some notin ref True c1 Inl in \<open>simp add: Let_def\<close>)
        next
          case (Inr b)
          show ?thesis
            by (rule exI[of _ "Inr s1"]) (use Some notin ref True c1 Inr in \<open>simp add: Let_def\<close>)
        qed
      next
        case nd: False
        show ?thesis
        proof (cases "is_list v \<and> elems v \<noteq> [] \<and> is_dict (hd (elems v))")
          case True
          obtain r1 s1 where c1: "create_table_if_not_exists s ?child (hd (elems v)) (Some T) = (r1, s1)"
            by (cases "create_table_if_not_exists s ?child (hd (elems v)) (Some T)")
          show ?thesis
          proof (cases r1)
            case (Inl e)
            show ?thesis
              by (rule exI[of _ "Inl (e, s1)"]) (use Some notin ref nd True c1 Inl in \<open>simp add: Let_def\<close>)
          next
            case (Inr b)
            show ?thesis
              by (rule exI[of _ "Inr s1"]) (use Some notin ref nd True c1 Inr in \<open>simp add: Let_def\<close>)
          qed
        next
          case False
          show ?thesis
            by (rule exI[of _ "Inr s"]) (use Some notin ref nd False in \<open>auto simp: Let_def\<close>)
        qed
      qed
    next
      case scalar: False
      show ?thesis
      proof (cases "exec_add_column (conn s) T ?c (get_sqlite_type v)")
        case (Inr d)
        show ?thesis
          by (rule exI[of _ "Inr (s\<lparr>conn := d,
                 known_tables := (known_tables s)(T \<mapsto> insert ?c known)\<rparr>)"])
             (use Some notin scalar Inr in \<open>simp add: Let_def\<close>)
      next
        case (Inl e)
        show ?thesis
        proof (cases "is_duplicate_column e")
          case True
          show ?thesis
            by (rule exI[of _ "Inr s"]) (use Some notin scalar Inl True in \<open>simp add: Let_def\<close>)
        next
          case False
          show ?thesis
            by (rule exI[of _ "Inl (e, s)"]) (use Some notin scalar Inl False in \<open>simp add: Let_def\<close>)
        qed
      qed
    qed
  qed
qed

lemma create_fields_append:
  "create_fields s T (xs @ ys) =
     (case create_fields s T xs of
        (Inl e, s') \<Rightarrow> (Inl e, s')
      | (Inr _, s') \<Rightarrow> create_fields s' T ys)"
proof (induction xs arbitrary: s)
  case Nil
  then show ?case by simp
next
  case (Cons kv xs)
  obtain k v where kv: "kv = (k, v)" by (cases kv)
  from create_fields_head[of s T k v] obtain X where
    X: "\<And>rest. create_fields s T ((k, v) # rest) =
          (case X of Inl (e, s1) \<Rightarrow> (Inl e, s1) | Inr s1 \<Rightarrow> create_fields s1 T rest)"
    by blast
  show ?case
  proof (cases X)
    case (Inl p)
    obtain e s1 where p: "p = (e, s1)" by (cases p)
    from X[of "xs @ ys"] X[of xs] Inl p show ?thesis
      unfolding kv by simp
  next
    case (Inr s1)
    from X[of "xs @ ys"] X[of xs] Inr Cons[of s1] show ?thesis
      unfolding kv by simp
  qed
qed

lemma find_append:
  "find P (xs @ ys) = (case find P xs of None \<Rightarrow> find P ys | Some x \<Rightarrow> Some x)"
  by (induction xs) auto

lemma column_decl_schema_le:
  assumes "schema_le s s'" "column_decl s T c = Some dcl"
  shows "column_decl s' T c = Some dcl"
proof -
  from assms(2) obtain tb where tb: "conn s (fold_case T) = Some tb"
    and f: "map_option snd (find (\<lambda>col. fold_case (fst col) = fold_case c) (cols tb)) = Some dcl"
    by (auto simp: column_decl_def find_table_def split: option.splits)
  from schema_leD_conn[OF assms(1) tb] obtain tb' where
    tb': "conn s' (fold_case T) = Some tb'" "prefix (cols tb) (cols tb')" by blast
  from tb'(2) obtain extra where e: "cols tb' = cols tb @ extra" by (auto simp: prefix_def)
  from f have "find (\<lambda>col. fold_case (fst col) = fold_case c) (cols tb @ extra)
                 = find (\<lambda>col. fold_case (fst col) = fold_case c) (cols tb)"
    by (auto simp: find_append split: option.splits)
  with f e tb'(1) show ?thesis
    by (simp add: column_decl_def find_table_def)
qed

lemma column_decl_has_column:
  "find_table (conn s) T = Some tb \<Longrightarrow> column_decl s T c = None \<longleftrightarrow> \<not> has_column tb c"
  by (force simp: column_decl_def has_column_def find_None_iff)

text \<open>No column \<open>c\<close> in table \<open>T\<close>, and \<open>c\<close> not registered for it.\<close>

lemma absent_confined:
  assumes "confined (T @ ''__'' @ c') s s'"
  shows "column_decl s' T c = column_decl s T c" "known_tables s' T = known_tables s T"
proof -
  from assms have "conn s' (fold_case T) = conn s (fold_case T)"
    unfolding confined_def using not_below_child_self by blast
  then show "column_decl s' T c = column_decl s T c"
    by (simp add: column_decl_def find_table_def)
  from assms show "known_tables s' T = known_tables s T"
    unfolding confined_def using not_path_below_child_self by blast
qed

lemma child_call_confined:
  assumes "clean T" "create_table_if_not_exists s (T @ ''__'' @ sanitize_name k) v p = (r, s')"
  shows "confined (T @ ''__'' @ sanitize_name k) s s'"
proof -
  have "sanitize_name (T @ ''__'' @ sanitize_name k) = T @ ''__'' @ sanitize_name k"
    using assms(1) by (intro clean_path) simp_all
  with create_confined(1)[OF assms(2)] show ?thesis by simp
qed

lemma absent_step:
  assumes T: "clean T"
    and a: "column_decl s T c = None" "c \<notin> (case known_tables s T of None \<Rightarrow> {} | Some K \<Rightarrow> K)"
    and c: "c \<noteq> []"
    and kv: "\<not> is_dict v \<and> \<not> is_list v \<longrightarrow> fold_case (added_column k v) \<noteq> fold_case c"
    and run: "create_fields s T ((k, v) # rest) = (r, s')"
  shows "\<exists>s1. column_decl s1 T c = None
              \<and> c \<notin> (case known_tables s1 T of None \<Rightarrow> {} | Some K \<Rightarrow> K)
              \<and> ((\<exists>e. r = Inl e) \<or> create_fields s1 T rest = (r, s'))"
proof (cases "known_tables s T")
  case None
  with run have "r = Inl (KeyError T)" by auto
  with a show ?thesis by blast
next
  case (Some known)
  let ?c = "sanitize_name k"
  let ?child = "T @ ''__'' @ ?c"
  show ?thesis
  proof (cases "?c \<in> known")
    case True
    with Some run have "create_fields s T rest = (r, s')" by simp
    with a show ?thesis by blast
  next
    case notin: False
    show ?thesis
    proof (cases "get_sqlite_type v = REFERENCE")
      case ref: True
      show ?thesis
      proof (cases "is_dict v")
        case True
        obtain r1 s1 where c1: "create_table_if_not_exists s ?child v (Some T) = (r1, s1)"
          by (cases "create_table_if_not_exists s ?child v (Some T)")
        from absent_confined[OF child_call_confined[OF T c1]] a
        have a1: "column_decl s1 T c = None"
          "c \<notin> (case known_tables s1 T of None \<Rightarrow> {} | Some K \<Rightarrow> K)" by simp_all
        show ?thesis
        proof (cases r1)
          case (Inl e)
          with c1 Some notin ref True run have "r = Inl e" by (auto simp: Let_def)
          with a1 show ?thesis by blast
        next
          case (Inr b)
          with c1 Some notin ref True run have "create_fields s1 T rest = (r, s')"
            by (simp add: Let_def)
          with a1 show ?thesis by blast
        qed
      next
        case nd: False
        show ?thesis
        proof (cases "is_list v \<and> elems v \<noteq> [] \<and> is_dict (hd (elems v))")
          case True
          obtain r1 s1 where c1: "create_table_if_not_exists s ?child (hd (elems v)) (Some T) = (r1, s1)"
            by (cases "create_table_if_not_exists s ?child (hd (elems v)) (Some T)")
          from absent_confined[OF child_call_confined[OF T c1]] a
          have a1: "column_decl s1 T c = None"
            "c \<notin> (case known_tables s1 T of None \<Rightarrow> {} | Some K \<Rightarrow> K)" by simp_all
          show ?thesis
          proof (cases r1)
            case (Inl e)
            with c1 Some notin ref nd True run have "r = Inl e" by (auto simp: Let_def)
            with a1 show ?thesis by blast
          next
            case (Inr b)
            with c1 Some notin ref nd True run have "create_fields s1 T rest = (r, s')"
              by (simp add: Let_def)
            with a1 show ?thesis by blast
          qed
        next
          case False
          with Some notin ref nd run have "create_fields s T rest = (r, s')"
            by (auto simp: Let_def)
          with a show ?thesis by blast
        qed
      qed
    next
      case scalar: False
      then have sc: "\<not> is_dict v" "\<not> is_list v"
        by (cases v; simp add: get_sqlite_type_def)+
      with kv have ne: "fold_case (added_column k v) \<noteq> fold_case c" by simp
      show ?thesis
      proof (cases "exec_add_column (conn s) T ?c (get_sqlite_type v)")
        case (Inr d)
        let ?s2 = "s\<lparr>conn := d, known_tables := (known_tables s)(T \<mapsto> insert ?c known)\<rparr>"
        from Inr Some notin scalar run have run2: "create_fields ?s2 T rest = (r, s')"
          by (simp add: Let_def)
        from add_column_result[OF Inr] obtain tb where
          tb: "find_table (conn s) T = Some tb"
              "d = (conn s)(fold_case T \<mapsto>
                     tb\<lparr>cols := cols tb @ [if ?c = [] then (type_name (get_sqlite_type v), Untyped)
                                              else (?c, Declared (get_sqlite_type v))]\<rparr>)"
          by blast
        from a(1) tb(1) have nf: "find (\<lambda>col. fold_case (fst col) = fold_case c) (cols tb) = None"
          by (simp add: column_decl_def)
        have "column_decl ?s2 T c = None"
          using tb(2) nf ne
          by (auto simp: column_decl_def find_table_def find_append added_column_def)
        moreover have "?c \<noteq> c"
          using ne c by (auto simp: added_column_def split: if_splits)
        with a(2) Some have "c \<notin> (case known_tables ?s2 T of None \<Rightarrow> {} | Some K \<Rightarrow> K)"
          by simp
        ultimately show ?thesis using run2 by blast
      next
        case (Inl e)
        show ?thesis
        proof (cases "is_duplicate_column e")
          case True
          with Inl Some notin scalar run have "create_fields s T rest = (r, s')"
            by (simp add: Let_def)
          with a show ?thesis by blast
        next
          case False
          with Inl Some notin scalar run have "r = Inl e" by (simp add: Let_def)
          with a show ?thesis by blast
        qed
      qed
    qed
  qed
qed

lemma absent_preserved:
  assumes "clean T" "c \<noteq> []"
  shows "column_decl s T c = None \<Longrightarrow> c \<notin> (case known_tables s T of None \<Rightarrow> {} | Some K \<Rightarrow> K)
    \<Longrightarrow> \<forall>kv \<in> set pre. \<not> is_dict (snd kv) \<and> \<not> is_list (snd kv)
           \<longrightarrow> fold_case (added_column (fst kv) (snd kv)) \<noteq> fold_case c
    \<Longrightarrow> create_fields s T pre = (Inr u, s')
    \<Longrightarrow> column_decl s' T c = None \<and> c \<notin> (case known_tables s' T of None \<Rightarrow> {} | Some K \<Rightarrow> K)"
proof (induction pre arbitrary: s)
  case Nil
  then show ?case by simp
next
  case (Cons kv pre)
  obtain k v where kv: "kv = (k, v)" by (cases kv)
  from Cons.prems(3) kv
  have h: "\<not> is_dict v \<and> \<not> is_list v \<longrightarrow> fold_case (added_column k v) \<noteq> fold_case c" by simp
  from absent_step[OF assms(1) Cons.prems(1,2) assms(2) h Cons.prems(4)[unfolded kv]]
  obtain s1 where s1: "column_decl s1 T c = None"
    "c \<notin> (case known_tables s1 T of None \<Rightarrow> {} | Some K \<Rightarrow> K)"
    "create_fields s1 T pre = (Inr u, s')" by auto
  from Cons.prems(3) have "\<forall>kv \<in> set pre. \<not> is_dict (snd kv) \<and> \<not> is_list (snd kv)
           \<longrightarrow> fold_case (added_column (fst kv) (snd kv)) \<noteq> fold_case c" by simp
  from Cons.IH[OF s1(1,2) this s1(3)] show ?case .
qed

lemma fold_case_row_id [simp]: "fold_case ''row__id'' = ''row__id''"
  by (simp add: fold_case_def fold_char_def)

lemma first_seen_after_register:
  assumes fs: "first_seen s T p pre c" and rg: "register_table s T p = (Inr u, s1)"
  shows "column_decl s1 T c = None \<and> c \<notin> (case known_tables s1 T of None \<Rightarrow> {} | Some K \<Rightarrow> K)"
  using register_table_cases[OF rg] fs
  by (auto simp: first_seen_def column_decl_def find_table_def split: option.splits)

lemma scalar_column_added:
  assumes a: "column_decl s T c = None" "c \<notin> (case known_tables s T of None \<Rightarrow> {} | Some K \<Rightarrow> K)"
    and c: "c = sanitize_name k" "c \<noteq> []"
    and v: "\<not> is_dict v" "\<not> is_list v"
    and run: "create_fields s T ((k, v) # rest) = (Inr u, s')"
  shows "column_decl s' T c = Some (Declared (get_sqlite_type v))"
proof -
  from run obtain known where Some: "known_tables s T = Some known"
    by (cases "known_tables s T") auto
  with a(2) c have notin: "sanitize_name k \<notin> known" by simp
  from v have scalar: "get_sqlite_type v \<noteq> REFERENCE"
    by (cases v) (simp_all add: get_sqlite_type_def)
  show ?thesis
  proof (cases "exec_add_column (conn s) T (sanitize_name k) (get_sqlite_type v)")
    case (Inr d)
    let ?s2 = "s\<lparr>conn := d, known_tables := (known_tables s)(T \<mapsto> insert (sanitize_name k) known)\<rparr>"
    from Inr Some notin scalar run have run2: "create_fields ?s2 T rest = (Inr u, s')"
      by (simp add: Let_def)
    from add_column_result[OF Inr] c obtain tb where
      tb: "find_table (conn s) T = Some tb"
          "d = (conn s)(fold_case T \<mapsto>
                 tb\<lparr>cols := cols tb @ [(c, Declared (get_sqlite_type v))]\<rparr>)"
      by auto
    from a(1) tb(1) have nf: "find (\<lambda>col. fold_case (fst col) = fold_case c) (cols tb) = None"
      by (simp add: column_decl_def)
    have "column_decl ?s2 T c = Some (Declared (get_sqlite_type v))"
      using tb(2) nf by (simp add: column_decl_def find_table_def find_append)
    with schema_steps_le(2)[OF run2] show ?thesis by (rule column_decl_schema_le)
  next
    case (Inl e)
    with Some notin scalar run have dup: "is_duplicate_column e"
      by (auto simp: Let_def split: if_splits)
    from add_column_duplicate[OF Inl dup] c obtain tb where
      "find_table (conn s) T = Some tb" "has_column tb c" by auto
    with a(1) show ?thesis by (simp add: column_decl_has_column)
  qed
qed

lemma first_seen_column:
  assumes run: "create_table_if_not_exists s t0 (JObj (pre @ (k, v) # post)) p = (Inr u, s')"
    and fs: "first_seen s (sanitize_name t0) p pre (sanitize_name k)"
    and v: "\<not> is_dict v" "\<not> is_list v"
  shows "column_decl s' (sanitize_name t0) (sanitize_name k) = Some (Declared (get_sqlite_type v))"
proof -
  let ?T = "sanitize_name t0" and ?c = "sanitize_name k"
  obtain r1 s1 where rg: "register_table s ?T p = (r1, s1)"
    by (cases "register_table s ?T p")
  from run rg obtain b where Inr: "r1 = Inr b"
    by (cases r1) (auto simp: create_table_obj)
  with run rg have f: "create_fields s1 ?T (pre @ (k, v) # post) = (Inr u, s')"
    by (simp add: create_table_obj)
  obtain r2 s2 where p: "create_fields s1 ?T pre = (r2, s2)"
    by (cases "create_fields s1 ?T pre")
  from f p obtain b2 where Inr2: "r2 = Inr b2"
    by (cases r2) (auto simp: create_fields_append)
  with f p have rest: "create_fields s2 ?T ((k, v) # post) = (Inr u, s')"
    by (simp add: create_fields_append)
  from first_seen_after_register[OF fs rg[unfolded Inr]]
  have a1: "column_decl s1 ?T ?c = None"
    "?c \<notin> (case known_tables s1 ?T of None \<Rightarrow> {} | Some K \<Rightarrow> K)" by simp_all
  from fs have ne: "?c \<noteq> []"
    and others: "\<forall>kv \<in> set pre. \<not> is_dict (snd kv) \<and> \<not> is_list (snd kv)
           \<longrightarrow> fold_case (added_column (fst kv) (snd kv)) \<noteq> fold_case ?c"
    by (simp_all add: first_seen_def)
  from absent_preserved[OF clean_sanitize_name ne a1 others p[unfolded Inr2]]
  have a2: "column_decl s2 ?T ?c = None"
    "?c \<notin> (case known_tables s2 ?T of None \<Rightarrow> {} | Some K \<Rightarrow> K)" by simp_all
  from scalar_column_added[OF a2 refl ne v rest] show ?thesis .
qed

section \<open>Scalar fields in the row of an object\<close>

lemma dict_set_member: "(c, v) \<in> set (dict_set c v d)"
  by (induction d) auto

lemma dict_set_other: "c' \<noteq> c \<Longrightarrow> (c', w) \<in> set d \<Longrightarrow> (c', w) \<in> set (dict_set c v d)"
  by (induction d) auto

lemma split_fields_keeps:
  "(c, w) \<in> set sd
   \<Longrightarrow> \<forall>kv \<in> set items. is_dict (snd kv) \<or> is_list (snd kv) \<or> sanitize_name (fst kv) \<noteq> c
   \<Longrightarrow> (c, w) \<in> set (fst (split_fields items sd nd))"
proof (induction items arbitrary: sd nd)
  case Nil
  then show ?case by simp
next
  case (Cons kv items)
  obtain k v where kv: "kv = (k, v)" by (cases kv)
  show ?case
  proof (cases "is_dict v \<or> is_list v")
    case True
    with Cons kv show ?thesis by (simp add: Let_def)
  next
    case False
    with Cons.prems(2) kv have "sanitize_name k \<noteq> c" by auto
    then have "(c, w) \<in> set (dict_set (sanitize_name k) v sd)"
      using Cons.prems(1) by (simp add: dict_set_other)
    with Cons False kv show ?thesis by (simp add: Let_def)
  qed
qed

lemma split_fields_scalar:
  assumes "\<not> is_dict v" "\<not> is_list v"
    and "\<forall>kv \<in> set post. is_dict (snd kv) \<or> is_list (snd kv)
           \<or> sanitize_name (fst kv) \<noteq> sanitize_name k"
  shows "(sanitize_name k, v) \<in> set (fst (split_fields (pre @ (k, v) # post) sd nd))"
  using assms
proof (induction pre arbitrary: sd nd)
  case Nil
  then show ?case
    by (simp add: Let_def split_fields_keeps dict_set_member)
next
  case (Cons kv pre)
  obtain k' v' where kv: "kv = (k', v')" by (cases kv)
  from Cons show ?case unfolding kv by (simp add: Let_def)
qed

lemma written_scalar:
  assumes run: "insert_data s t0 (JObj (pre @ (k, v) # post)) pid = (Inr rid, s')"
    and v: "\<not> is_dict v" "\<not> is_list v"
    and last: "\<forall>kv \<in> set post. is_dict (snd kv) \<or> is_list (snd kv)
           \<or> sanitize_name (fst kv) \<noteq> sanitize_name k"
  shows "\<exists>rw. (rid, rw) \<in> set (table_rows s' (sanitize_name t0)) \<and> (sanitize_name k, v) \<in> set rw"
proof -
  let ?items = "pre @ (k, v) # post"
  let ?T = "sanitize_name t0"
  from insert_data_success[OF run] obtain d where
    acc: "exec_insert (conn s) ?T (row_of (JObj ?items) ?T pid) = Inr (d, rid)"
    by blast
  from own_row_stays[OF acc run]
  have "(rid, row_of (JObj ?items) ?T pid) \<in> set (table_rows s' ?T)" .
  moreover from split_fields_scalar[OF v last, of pre "[]" "[]"]
  have "(sanitize_name k, v) \<in> set (row_of (JObj ?items) ?T pid)" by simp
  ultimately show ?thesis by blast
qed

section \<open>Arrays with an element that is not an object\<close>


section \<open>Idempotent schema mutation\<close>


section \<open>What the schema pass guarantees\<close>

text \<open>
  Claim C1, amended. For array input the schema pass runs to completion before the write
  pass starts, and it writes no row; when it raises, the write pass is not run. When it
  completes, every document's root table exists and so does, recursively, the child table
  of every field that is not registered as a scalar column and whose value is an object
  or an array whose first element is an object, that first element standing for the whole
  array. Nothing is promised for tables that only later elements of an array need.
\<close>

theorem schema_pass_guarantee:
  "(loads content = Some (JArr docs)
      \<longrightarrow> process_json_file loads s content =
            (case json_schema_pass s docs of
               (Inl e, s1) \<Rightarrow> (Inl e, s1)
             | (Inr u, s1) \<Rightarrow> (case json_write_pass s1 1 docs of (lg, s2) \<Rightarrow> (Inr lg, s2))))
   \<and> (json_schema_pass s docs = (r, s1) \<longrightarrow> table_rows s1 t = table_rows s t)
   \<and> (registry_consistent s \<and> json_schema_pass s docs = (Inr (), s1)
      \<longrightarrow> (\<forall>doc \<in> set docs. schema_covers s1 (root_table s) doc))"
proof -
  have 1: "process_json_file loads s content =
            (case json_schema_pass s docs of
               (Inl e, s1) \<Rightarrow> (Inl e, s1)
             | (Inr u, s1) \<Rightarrow> (case json_write_pass s1 1 docs of (lg, s2) \<Rightarrow> (Inr lg, s2)))"
    if "loads content = Some (JArr docs)"
    using that by (auto simp: process_json_file_def split: prod.splits sum.splits)
  have 2: "table_rows s1 t = table_rows s t" if "json_schema_pass s docs = (r, s1)"
    using schema_le_table_rows[OF json_schema_pass_le[OF that]] .
  have 3: "\<forall>doc \<in> set docs. schema_covers s1 (root_table s) doc"
    if "registry_consistent s" "json_schema_pass s docs = (Inr (), s1)"
    using json_schema_pass_covers[OF that(2,1)] by simp
  from 1 2 3 show ?thesis by blast
qed

section \<open>Null values\<close>


section \<open>Evaluation on literals\<close>

lemmas char_eval = isalnum_def lower_def lower_char_def char_of_def bit_0 sanitize_char_def
  fold_case_def fold_char_def ascii_digit_def ident_char_def

lemma san_eval:
  "sanitize_name ''root'' = ''root''"
  "sanitize_name ''a__b'' = ''a__b''"
  "sanitize_name ''a_b'' = ''a_b''"
  "sanitize_name ''a-b'' = ''a_b''"
  "sanitize_name ''a b'' = ''a_b''"
  "sanitize_name ''a'' = ''a''"
  "sanitize_name ''b'' = ''b''"
  "sanitize_name ''c'' = ''c''"
  "sanitize_name ''d'' = ''d''"
  "sanitize_name ''x'' = ''x''"
  "sanitize_name ''y'' = ''y''"
  "sanitize_name ''k'' = ''k''"
  "sanitize_name ''1'' = ''1''"
  "sanitize_name ''2020'' = ''2020''"
  "sanitize_name ''items'' = ''items''"
  "sanitize_name ''row__id'' = ''row__id''"
  "sanitize_name ''returning'' = ''returning''"
  "sanitize_name ''root__a'' = ''root__a''"
  "sanitize_name ''root__a_b'' = ''root__a_b''"
  "sanitize_name ''root__a__b'' = ''root__a__b''"
  "sanitize_name ''root__items'' = ''root__items''"
  "sanitize_name ''root__items__b'' = ''root__items__b''"
  by (simp_all add: sanitize_name_def char_eval reserved_keywords_def)

lemma fold_eval:
  "fold_case ''root'' = ''root''"
  "fold_case ''a'' = ''a''"
  "fold_case ''b'' = ''b''"
  "fold_case ''c'' = ''c''"
  "fold_case ''d'' = ''d''"
  "fold_case ''x'' = ''x''"
  "fold_case ''y'' = ''y''"
  "fold_case ''a_b'' = ''a_b''"
  "fold_case ''1'' = ''1''"
  "fold_case ''2020'' = ''2020''"
  "fold_case ''items'' = ''items''"
  "fold_case ''row__id'' = ''row__id''"
  "fold_case ''root_id'' = ''root_id''"
  "fold_case ''root__a_id'' = ''root__a_id''"
  "fold_case ''root__a_b_id'' = ''root__a_b_id''"
  "fold_case ''root__items_id'' = ''root__items_id''"
  "fold_case ''returning'' = ''returning''"
  "fold_case ''root__a'' = ''root__a''"
  "fold_case ''root__a_b'' = ''root__a_b''"
  "fold_case ''root__a__b'' = ''root__a__b''"
  "fold_case ''root__items'' = ''root__items''"
  "fold_case ''root__items__b'' = ''root__items__b''"
  by (simp_all add: char_eval)

lemma valid_eval:
  "valid_identifier ''root''"
  "valid_identifier ''a''"
  "valid_identifier ''b''"
  "valid_identifier ''c''"
  "valid_identifier ''d''"
  "valid_identifier ''x''"
  "valid_identifier ''y''"
  "valid_identifier ''a_b''"
  "\<not> valid_identifier ''1''"
  "\<not> valid_identifier ''2020''"
  "valid_identifier ''items''"
  "valid_identifier ''row__id''"
  "valid_identifier ''root_id''"
  "valid_identifier ''root__a_id''"
  "valid_identifier ''root__a_b_id''"
  "valid_identifier ''root__items_id''"
  "\<not> valid_identifier ''returning''"
  "valid_identifier ''root__a''"
  "valid_identifier ''root__a_b''"
  "valid_identifier ''root__a__b''"
  "valid_identifier ''root__items''"
  "valid_identifier ''root__items__b''"
  by (simp_all add: valid_identifier_def engine_reserved_def char_eval)

lemma internal_eval:
  "\<not> internal_name ''root''"
  "\<not> internal_name ''root__a''"
  "\<not> internal_name ''root__a_b''"
  "\<not> internal_name ''root__a__b''"
  "\<not> internal_name ''root__items''"
  "\<not> internal_name ''root__items__b''"
  by (simp_all add: internal_name_def fold_eval)

lemma alias_eval:
  "\<not> rowid_alias ''a''"
  "\<not> rowid_alias ''b''"
  "\<not> rowid_alias ''c''"
  "\<not> rowid_alias ''d''"
  "\<not> rowid_alias ''x''"
  "\<not> rowid_alias ''y''"
  "\<not> rowid_alias ''a_b''"
  "\<not> rowid_alias ''row__id''"
  "\<not> rowid_alias ''root_id''"
  "\<not> rowid_alias ''root__a_id''"
  "\<not> rowid_alias ''root__a_b_id''"
  "\<not> rowid_alias ''root__items_id''"
  by (simp_all add: rowid_alias_def fold_eval)

lemma parent_eval:
  "parent_table_of ''root__a'' = ''root''"
  "parent_table_of ''root__a_b'' = ''root''"
  "parent_table_of ''root__a__b'' = ''root__a''"
  "parent_table_of ''root__items'' = ''root''"
  "parent_table_of ''root__items__b'' = ''root__items''"
  by (simp_all add: parent_table_of_def)

lemmas engine_eval =
  new_converter_def register_table_def exec_create_table_def exec_add_column_def exec_insert_def
  find_table_def has_column_def resolves_def names_row_id_def row_id_request_def
  get_sqlite_type_def Let_def process_json_file_def process_jsonlines_file_def
  process_file_def first_char_def insert_data.simps create_table_if_not_exists.simps
  san_eval fold_eval valid_eval internal_eval alias_eval parent_eval

lemma fresh_eval: "root_table fresh = ''root''" "conn fresh t = None" "known_tables fresh t = None"
  by (simp_all add: fresh_def new_converter_def san_eval)


section \<open>The sanitizer and the classifier\<close>

text \<open>
  Claim C7 at the failing input \<^verbatim>\<open>returning\<close>: the storage engine reserves the word,
  so section 4.1 asks for \<^verbatim>\<open>_returning\<close>; the sanitizer's list does not hold the word
  and the name comes back as it is, and the schema pass of \<^verbatim>\<open>[{"returning": 1}]\<close> raises
  on its \<^verbatim>\<open>ADD COLUMN\<close>. The word \<^verbatim>\<open>nothing\<close> is missing in the same way. The two
  examples of the specification evaluate as stated.
\<close>

theorem sanitizer_misses_reserved_words:
  "''returning'' \<in> engine_reserved
   \<and> sanitize_spec ''returning'' = ''_returning''
   \<and> sanitize_name ''returning'' = ''returning''
   \<and> fst (json_schema_pass fresh [doc_returning])
       = Inl (OperationalError (SyntaxError ''returning''))
   \<and> ''nothing'' \<in> engine_reserved
   \<and> sanitize_spec ''nothing'' = ''_nothing''
   \<and> sanitize_name ''nothing'' = ''nothing''
   \<and> sanitize_name ''select'' = ''_select''
   \<and> sanitize_name ''a-b!c'' = ''a_b_c''"
proof -
  have 1: "''returning'' \<in> engine_reserved" "''nothing'' \<in> engine_reserved"
    by (simp_all add: engine_reserved_def)
  have 2: "sanitize_spec ''returning'' = ''_returning''" "sanitize_spec ''nothing'' = ''_nothing''"
    by (simp_all add: sanitize_spec_def collides_with_reserved_def engine_reserved_def char_eval)
  have 3: "sanitize_name ''returning'' = ''returning''" "sanitize_name ''nothing'' = ''nothing''"
    "sanitize_name ''select'' = ''_select''" "sanitize_name ''a-b!c'' = ''a_b_c''"
    by (simp_all add: sanitize_name_def char_eval reserved_keywords_def)
  have 4: "fst (json_schema_pass fresh [doc_returning])
       = Inl (OperationalError (SyntaxError ''returning''))"
    by (simp add: fresh_def doc_returning_def engine_eval)
  from 1 2 3 4 show ?thesis by simp
qed

text \<open>
  Claim C8. The classifier tests \<^verbatim>\<open>bool\<close> before \<^verbatim>\<open>int\<close>: a boolean passes the
  integer test of the host language as well, and is still classified BOOLEAN, never
  INTEGER. Every object and every array is classified REFERENCE (composite).
\<close>

theorem get_sqlite_type_bool_before_int:
  "is_int (JBool b)
   \<and> get_sqlite_type (JBool b) = BOOLEAN
   \<and> get_sqlite_type (JBool b) \<noteq> INTEGER
   \<and> get_sqlite_type (JInt n) = INTEGER
   \<and> get_sqlite_type (JObj items) = REFERENCE
   \<and> get_sqlite_type (JArr xs) = REFERENCE"
  by (simp add: get_sqlite_type_def)

theorem get_sqlite_type_bool_before_int_witness:
  "is_int (JBool True)
   \<and> get_sqlite_type (JBool True) = BOOLEAN
   \<and> get_sqlite_type (JObj [(''k'', JBool False)]) = REFERENCE
   \<and> get_sqlite_type (JArr []) = REFERENCE"
  using get_sqlite_type_bool_before_int [of True 0 "[(''k'', JBool False)]" "[]"]
  by simp

section \<open>Input shape, parent references and the inputs on which claims fail\<close>

text \<open>
  Claim C6, as stated, fails: the text \<open>padded_array\<close> starts with a blank and its first
  character that is not white space is an opening bracket, yet \<^verbatim>\<open>process_file\<close> treats
  it as line-delimited input (its only line is logged in both passes and no row is written),
  while processing it as an array writes one row.
\<close>

theorem leading_blank_is_read_as_lines:
  "first_non_whitespace padded_array = ''[''
   \<and> fst (process_file loads_padded fresh (Some padded_array))
       = Inr [(1, AttributeError), (1, AttributeError)]
   \<and> table_rows (snd (process_file loads_padded fresh (Some padded_array))) ''root'' = []
   \<and> fst (process_json_file loads_padded fresh padded_array) = Inr []
   \<and> table_rows (snd (process_json_file loads_padded fresh padded_array)) ''root'' = [(1, [])]"
  by (simp add: first_non_whitespace_def is_space_def padded_array_def loads_padded_def
        fresh_def table_rows_def engine_eval)

text \<open>
  Claim C6, amended: the shape is decided by the first character of the text alone, with
  no white space skipped. An opening bracket selects the array path, anything else
  (an empty file and leading white space included) the line-delimited path.
\<close>

theorem process_file_first_character:
  "process_file loads s (Some content) =
     (if content \<noteq> [] \<and> hd content = CHR ''[''
      then process_json_file loads s content
      else (case process_jsonlines_file loads s content of (lg, s') \<Rightarrow> (Inr lg, s')))"
  by (cases content) (auto simp: process_file_def first_char_def)

theorem process_file_first_character_witness:
  "process_file loads_padded fresh (Some ''[{}]'') = process_json_file loads_padded fresh ''[{}]''
   \<and> process_file loads_padded fresh (Some padded_array) =
       (case process_jsonlines_file loads_padded fresh padded_array of (lg, s') \<Rightarrow> (Inr lg, s'))"
  using process_file_first_character [of loads_padded fresh "''[{}]''"]
        process_file_first_character [of loads_padded fresh padded_array]
  by (simp add: padded_array_def)

text \<open>
  Claim C2 at the failing input \<^verbatim>\<open>[{"a__b": {"c": 1}}]\<close>: the schema pass declares the
  parent reference of table \<open>root__a__b\<close> as \<open>root_id\<close>, and the write of the same document
  names it \<open>root__a_id\<close>, so the insertion of the child row is rejected.
\<close>

theorem parent_reference_column_mismatch:
  "fst (json_schema_pass fresh [doc_dunder]) = Inr ()
   \<and> map_option cols (conn schema_dunder ''root__a__b'')
       = Some [(''row__id'', PrimaryKey), (''root_id'', Declared INTEGER), (''c'', Declared INTEGER)]
   \<and> fst (insert_data schema_dunder (root_table schema_dunder) doc_dunder None)
       = Inl (OperationalError (NoSuchColumn ''root__a__b'' ''root__a_id''))"
  by (simp add: schema_dunder_def fresh_def doc_dunder_def engine_eval)

text \<open>
  Claim C1, as stated, fails at \<^verbatim>\<open>[{"items": [{"a": 1}, {"b": {"c": 1}}]}]\<close>: the schema
  pass completes, it has not created table \<open>root__items__b\<close>, and the write of the document
  targets exactly that table.
\<close>

theorem schema_pass_misses_later_elements:
  "fst (json_schema_pass fresh [doc_late_nested]) = Inr ()
   \<and> conn schema_late_nested ''root__items__b'' = None
   \<and> fst (insert_data schema_late_nested (root_table schema_late_nested) doc_late_nested None)
       = Inl (OperationalError (NoSuchTable ''root__items__b''))"
  by (simp add: schema_late_nested_def fresh_def doc_late_nested_def engine_eval)




text \<open>
  Claim C3, as stated, fails at \<^verbatim>\<open>[{"items": [{"a": 1}, {"b": 2}]}]\<close>: the parent row is
  written, the array holds two objects, and table \<open>root__items\<close> ends with one row.
\<close>

theorem two_objects_one_child_row:
  "fst (json_schema_pass fresh [doc_mixed_items]) = Inr ()
   \<and> table_rows written_mixed_items ''root'' = [(1, [])]
   \<and> table_rows written_mixed_items ''root__items'' = [(1, [(''a'', JInt 1), (''root_id'', JInt 1)])]"
  by (simp add: written_mixed_items_def fresh_def doc_mixed_items_def table_rows_def engine_eval)

text \<open>
  Claim C4, as stated, fails at \<^verbatim>\<open>[{"a": 1, "items": [{"x": 1}, {"y": 2}]}]\<close>: the write
  of the only record raises, so no record was successfully written, and the root table
  holds one row.
\<close>

theorem failed_record_leaves_root_row:
  "fst (json_schema_pass fresh [doc_failing_child]) = Inr ()
   \<and> fst (insert_data schema_failing_child (root_table schema_failing_child) doc_failing_child None)
       = Inl (OperationalError (NoSuchColumn ''root__items'' ''y''))
   \<and> fst (json_write_pass schema_failing_child 1 [doc_failing_child])
       = [(1, OperationalError (NoSuchColumn ''root__items'' ''y''))]
   \<and> table_rows (snd (json_write_pass schema_failing_child 1 [doc_failing_child])) ''root''
       = [(1, [(''a'', JInt 1)])]"
  by (simp add: schema_failing_child_def fresh_def doc_failing_child_def table_rows_def engine_eval)

section \<open>Instances of the general theorems\<close>

lemma schema_late_nested_run:
  "json_schema_pass fresh [doc_late_nested] = (Inr (), schema_late_nested)"
proof -
  have "fst (json_schema_pass fresh [doc_late_nested]) = Inr ()"
    by (simp add: fresh_def doc_late_nested_def engine_eval)
  then show ?thesis
    unfolding schema_late_nested_def by (metis prod.collapse)
qed

theorem schema_pass_guarantee_witness:
  "registry_consistent fresh
   \<and> json_schema_pass fresh [doc_late_nested] = (Inr (), schema_late_nested)
   \<and> schema_covers schema_late_nested ''root'' doc_late_nested
   \<and> table_rows schema_late_nested ''root__items'' = []
   \<and> process_json_file (\<lambda>text. Some (JArr [doc_late_nested])) fresh ''[]''
       = (case json_write_pass schema_late_nested 1 [doc_late_nested] of
            (lg, s2) \<Rightarrow> (Inr lg, s2))"
  using schema_pass_guarantee
          [of "\<lambda>text. Some (JArr [doc_late_nested])" "''[]''" "[doc_late_nested]" fresh
              "Inr ()" schema_late_nested "''root__items''"]
        schema_late_nested_run
  by (simp add: new_converter_consistent[of Map.empty "''root''", folded fresh_def]
        fresh_eval table_rows_def find_table_def)

lemma schema_once_run:
  "create_table_if_not_exists fresh ''root'' doc_late_nested None = (Inr (), schema_once)"
proof -
  have "fst (create_table_if_not_exists fresh ''root'' doc_late_nested None) = Inr ()"
    by (simp add: fresh_def doc_late_nested_def engine_eval)
  then show ?thesis
    unfolding schema_once_def by (metis prod.collapse)
qed

lemma schema_once_conn:
  "conn schema_once =
     [''root'' \<mapsto> \<lparr>cols = [(''row__id'', PrimaryKey)], rows = [], seq = 0\<rparr>,
      ''root__items'' \<mapsto> \<lparr>cols = [(''row__id'', PrimaryKey), (''root_id'', Declared INTEGER),
                                    (''a'', Declared INTEGER)], rows = [], seq = 0\<rparr>]"
  by (simp add: schema_once_def fresh_def doc_late_nested_def engine_eval)

lemma schema_once_roomy: "roomy schema_once"
  by (auto simp: roomy_def schema_once_conn split: if_splits)


lemma bad_element_root_insert:
  "\<exists>d. exec_insert (conn schema_bad_element) (sanitize_name ''root'')
          (row_of doc_bad_element (sanitize_name ''root'') None) = Inr (d, 1)"
  by (simp add: schema_bad_element_def fresh_def doc_bad_element_def engine_eval)


lemma schema_null_run:
  "create_table_if_not_exists fresh ''root'' doc_null None = (Inr (), schema_null)"
proof -
  have "fst (create_table_if_not_exists fresh ''root'' doc_null None) = Inr ()"
    by (simp add: fresh_def doc_null_def engine_eval)
  then show ?thesis
    unfolding schema_null_def by (metis prod.collapse)
qed

lemma null_first_seen: "first_seen fresh ''root'' None [(''a'', JInt 1)] ''b''"
  by (simp add: first_seen_def column_decl_def find_table_def fresh_eval added_column_def
        san_eval fold_eval)

lemma null_written: "fst (insert_data schema_null ''root'' doc_null None) = Inr 1"
  by (simp add: schema_null_def fresh_def doc_null_def engine_eval)


end
